theory Spec2Isabelle
  imports Main "HOL-Library.AList"
begin

section \<open>Python values, errors and containers\<close>

text \<open>
  The simulator \<^verbatim>\<open>EE24B021_A4/digitalsim.py\<close> works on Python strings, lists, tuples,
  sets and dicts. Strings are modelled as \<^typ>\<open>string\<close> (code points below 256), lists and
  tuples as lists, sets as HOL sets, and a dict as an association list with distinct keys
  in insertion order (\<^const>\<open>AList.update\<close> is \<^verbatim>\<open>d[k] = v\<close>). The dict \<^verbatim>\<open>signals\<close> is only
  ever subscripted, so it is a map. Every exception the code can raise is a value
  \<open>Inl e\<close> of the result type.
\<close>

datatype error =
    ValueError string
  | TypeError string
  | KeyError string
  | IndexError
  | StopIteration

type_synonym 'v dict = "(string \<times> 'v) list"

text \<open>\<^verbatim>\<open>xs[i]\<close> for a non-negative index: IndexError out of range.\<close>

definition getitem :: "'a list \<Rightarrow> nat \<Rightarrow> error + 'a" where
  "getitem xs i = (if i < length xs then Inr (xs ! i) else Inl IndexError)"

text \<open>\<^verbatim>\<open>d[k]\<close> on a dict: KeyError on a missing key.\<close>

definition dict_get :: "'v dict \<Rightarrow> string \<Rightarrow> error + 'v" where
  "dict_get d k = (case map_of d k of None \<Rightarrow> Inl (KeyError k) | Some v \<Rightarrow> Inr v)"

section \<open>Gate evaluation\<close>

text \<open>
  \<^verbatim>\<open>eval_gate(typ, args)\<close>, lines 138-148. Values are the strings \<^verbatim>\<open>"0"\<close> and \<^verbatim>\<open>"1"\<close>.
  Python's \<^verbatim>\<open>and\<close> and \<^verbatim>\<open>or\<close> short-circuit, so \<^verbatim>\<open>args[1]\<close> is read only when the first
  operand does not decide the result.
\<close>

definition eval_gate :: "string \<Rightarrow> string list \<Rightarrow> error + string" where
  "eval_gate typ args =
    (if typ = ''NOT'' then
       (case getitem args 0 of Inl e \<Rightarrow> Inl e
        | Inr a0 \<Rightarrow> Inr (if a0 = ''1'' then ''0'' else ''1''))
     else if typ = ''AND'' then
       (case getitem args 0 of Inl e \<Rightarrow> Inl e
        | Inr a0 \<Rightarrow>
            if a0 = ''1'' then
              (case getitem args 1 of Inl e \<Rightarrow> Inl e
               | Inr a1 \<Rightarrow> Inr (if a1 = ''1'' then ''1'' else ''0''))
            else Inr ''0'')
     else if typ = ''OR'' then
       (case getitem args 0 of Inl e \<Rightarrow> Inl e
        | Inr a0 \<Rightarrow>
            if a0 = ''1'' then Inr ''1''
            else
              (case getitem args 1 of Inl e \<Rightarrow> Inl e
               | Inr a1 \<Rightarrow> Inr (if a1 = ''1'' then ''1'' else ''0'')))
     else if typ = ''XOR'' then
       (case getitem args 0 of Inl e \<Rightarrow> Inl e
        | Inr a0 \<Rightarrow>
            (case getitem args 1 of Inl e \<Rightarrow> Inl e
             | Inr a1 \<Rightarrow> Inr (if a0 \<noteq> a1 then ''1'' else ''0'')))
     else Inl (ValueError (''Unknown gate type: '' @ typ)))"

text \<open>A boolean as the simulator writes it.\<close>

definition bit_str :: "bool \<Rightarrow> string" where
  "bit_str b = (if b then ''1'' else ''0'')"

section \<open>Gates and dependency resolution\<close>

text \<open>A gate is the dict \<^verbatim>\<open>{"name": out, "type": typ, "inputs": args}\<close> of line 75.\<close>

record gate =
  g_name :: string
  g_type :: string
  g_inputs :: "string list"

text \<open>
  The body of the \<^verbatim>\<open>for h in deps\<close> loop, lines 123-127: \<^verbatim>\<open>node\<close> is removed from every
  dependency set that holds it, and a gate whose set becomes empty is appended to
  \<^verbatim>\<open>ready\<close>. The keys of a dict are distinct, so walking the entries in order is the
  loop over the keys.
\<close>

fun relax :: "string \<Rightarrow> (string set) dict \<Rightarrow> string list \<Rightarrow> (string set) dict \<times> string list" where
  "relax node [] ready = ([], ready)"
| "relax node ((h, ds) # rest) ready =
    (if node \<in> ds then
       (let ds' = ds - {node};
            ready' = (if ds' = {} then ready @ [h] else ready)
        in case relax node rest ready' of (rest', ready'') \<Rightarrow> ((h, ds') # rest', ready''))
     else
       (case relax node rest ready of (rest', ready'') \<Rightarrow> ((h, ds) # rest', ready'')))"

text \<open>The number of gates still waiting for a dependency.\<close>

definition waiting :: "(string set) dict \<Rightarrow> nat" where
  "waiting deps = length (filter (\<lambda>p. snd p \<noteq> {}) deps)"

lemma relax_measure:
  "relax node deps ready = (deps', ready') \<Longrightarrow>
     length ready' + waiting deps' = length ready + waiting deps"
proof (induction deps arbitrary: ready deps' ready')
  case Nil
  then show ?case by (simp add: waiting_def)
next
  case (Cons p deps)
  obtain h ds where p: "p = (h, ds)" by (cases p)
  show ?case
  proof (cases "node \<in> ds")
    case True
    let ?r = "if ds - {node} = {} then ready @ [h] else ready"
    obtain rest' r'' where rl: "relax node deps ?r = (rest', r'')" by (cases "relax node deps ?r")
    from Cons.prems p True rl have eq: "deps' = (h, ds - {node}) # rest'" "ready' = r''"
      by (auto simp: Let_def)
    from Cons.IH[OF rl] have "length r'' + waiting rest' = length ?r + waiting deps" .
    with eq p True show ?thesis by (auto simp: waiting_def)
  next
    case False
    obtain rest' r'' where rl: "relax node deps ready = (rest', r'')" by (cases "relax node deps ready")
    from Cons.prems p False rl have eq: "deps' = (h, ds) # rest'" "ready' = r''"
      by auto
    from Cons.IH[OF rl] have "length r'' + waiting rest' = length ready + waiting deps" .
    with eq p show ?thesis by (auto simp: waiting_def)
  qed
qed

text \<open>
  The \<^verbatim>\<open>while ready\<close> loop, lines 120-127: \<^verbatim>\<open>ready.pop()\<close> takes the last element.
\<close>

function topo_loop ::
  "string dict \<Rightarrow> (string set) dict \<Rightarrow> string list \<Rightarrow> (string \<times> string) list
     \<Rightarrow> error + (string \<times> string) list" where
  "topo_loop type_lookup deps ready order =
    (if ready = [] then Inr order
     else
       (let node = last ready; ready1 = butlast ready in
        case dict_get type_lookup node of
          Inl e \<Rightarrow> Inl e
        | Inr typ \<Rightarrow>
            (case relax node deps ready1 of
               (deps', ready') \<Rightarrow> topo_loop type_lookup deps' ready' (order @ [(node, typ)]))))"
  by pat_completeness auto
termination
  by (relation "measure (\<lambda>(type_lookup, deps, ready, order). length ready + waiting deps)")
    (auto dest!: relax_measure[OF sym])

declare topo_loop.simps [simp del]

text \<open>
  \<^verbatim>\<open>topo_sort(gates, inputs)\<close>, lines 108-132. The dict comprehensions keep the last
  value of a repeated key; dependencies that are not gate names are dropped (line 113);
  the parameter \<^verbatim>\<open>inputs\<close> is not used by the code.
\<close>

definition gate_deps :: "gate list \<Rightarrow> (string set) dict" where
  "gate_deps gates =
    (let deps = fold (\<lambda>g d. AList.update (g_name g) (set (g_inputs g)) d) gates [];
         gate_names = set (map g_name gates)
     in map (\<lambda>(g, ds). (g, {d \<in> ds. d \<in> gate_names})) deps)"

definition topo_sort :: "gate list \<Rightarrow> string list \<Rightarrow> error + (string \<times> string) list" where
  "topo_sort gates inputs =
    (let deps = gate_deps gates;
         type_lookup = fold (\<lambda>g d. AList.update (g_name g) (g_type g) d) gates [];
         ready = map fst (filter (\<lambda>p. snd p = {}) deps)
     in case topo_loop type_lookup deps ready [] of
          Inl e \<Rightarrow> Inl e
        | Inr order \<Rightarrow>
            if length order \<noteq> length gates
            then Inl (ValueError ''Cyclic or unresolved gate dependencies detected'')
            else Inr order)"

section \<open>Simulation\<close>

text \<open>\<^verbatim>\<open>[signals[a] for a in g["inputs"]]\<close>: the first missing name raises KeyError.\<close>

fun lookup_all :: "(string \<rightharpoonup> string) \<Rightarrow> string list \<Rightarrow> error + string list" where
  "lookup_all signals [] = Inr []"
| "lookup_all signals (a # as) =
    (case signals a of
       None \<Rightarrow> Inl (KeyError a)
     | Some v \<Rightarrow>
         (case lookup_all signals as of Inl e \<Rightarrow> Inl e | Inr vs \<Rightarrow> Inr (v # vs)))"

text \<open>
  The gate loop of one event, lines 167-170. \<^verbatim>\<open>next(g for g in gates if ...)\<close> is the
  first gate of that name and raises StopIteration when there is none.
\<close>

fun eval_gates ::
  "gate list \<Rightarrow> (string \<times> string) list \<Rightarrow> (string \<rightharpoonup> string) \<Rightarrow> error + (string \<rightharpoonup> string)" where
  "eval_gates gates [] signals = Inr signals"
| "eval_gates gates ((gname, gtype) # order) signals =
    (case find (\<lambda>g. g_name g = gname) gates of
       None \<Rightarrow> Inl StopIteration
     | Some g \<Rightarrow>
         (case lookup_all signals (g_inputs g) of
            Inl e \<Rightarrow> Inl e
          | Inr arg_vals \<Rightarrow>
              (case eval_gate gtype arg_vals of
                 Inl e \<Rightarrow> Inl e
               | Inr v \<Rightarrow> eval_gates gates order (signals(gname \<mapsto> v)))))"

text \<open>
  One of the two recording loops, lines 173-176: \<^verbatim>\<open>waves[name] += signals[name]\<close> reads
  \<^verbatim>\<open>waves[name]\<close>, then \<^verbatim>\<open>signals[name]\<close>, then stores the concatenation.
\<close>

fun record_waves :: "string list \<Rightarrow> (string \<rightharpoonup> string) \<Rightarrow> string dict \<Rightarrow> error + string dict" where
  "record_waves [] signals waves = Inr waves"
| "record_waves (name # names) signals waves =
    (case dict_get waves name of
       Inl e \<Rightarrow> Inl e
     | Inr w \<Rightarrow>
         (case signals name of
            None \<Rightarrow> Inl (KeyError name)
          | Some v \<Rightarrow> record_waves names signals (AList.update name (w @ v) waves)))"

text \<open>
  The loop over the stimulus events, lines 161-176. \<^verbatim>\<open>zip\<close> stops at the shorter of
  the two lists; \<^verbatim>\<open>signals\<close> is created once and lives across the events.
\<close>

fun sim_events ::
  "string list \<Rightarrow> string list \<Rightarrow> gate list \<Rightarrow> (string \<times> string) list \<Rightarrow> (int \<times> string list) list
     \<Rightarrow> (string \<rightharpoonup> string) \<Rightarrow> string dict \<Rightarrow> error + string dict" where
  "sim_events inputs outputs gates order [] signals waves = Inr waves"
| "sim_events inputs outputs gates order ((t, vals) # stimuli) signals waves =
    (let signals1 = fold (\<lambda>(name, val) s. s(name \<mapsto> val)) (zip inputs vals) signals in
     case eval_gates gates order signals1 of
       Inl e \<Rightarrow> Inl e
     | Inr signals2 \<Rightarrow>
         (case record_waves inputs signals2 waves of
            Inl e \<Rightarrow> Inl e
          | Inr waves1 \<Rightarrow>
              (case record_waves outputs signals2 waves1 of
                 Inl e \<Rightarrow> Inl e
               | Inr waves2 \<Rightarrow> sim_events inputs outputs gates order stimuli signals2 waves2)))"

type_synonym netlist = "string list \<times> string list \<times> gate list \<times> (int \<times> string list) list"

text \<open>
  The body of \<^verbatim>\<open>simulate\<close> after the evaluation order is known (lines 158-178), and
  \<^verbatim>\<open>simulate\<close> itself, which takes the order from \<^const>\<open>topo_sort\<close> (line 156).
\<close>

definition simulate_with :: "(string \<times> string) list \<Rightarrow> netlist \<Rightarrow> error + string dict" where
  "simulate_with order parsed_netlist =
    (case parsed_netlist of (inputs, outputs, gates, stimuli) \<Rightarrow>
       sim_events inputs outputs gates order stimuli Map.empty
         (fold (\<lambda>s d. AList.update s [] d) (inputs @ outputs) []))"

definition simulate :: "netlist \<Rightarrow> error + string dict" where
  "simulate parsed_netlist =
    (case parsed_netlist of (inputs, outputs, gates, stimuli) \<Rightarrow>
       (case topo_sort gates inputs of
          Inl e \<Rightarrow> Inl e
        | Inr order \<Rightarrow> simulate_with order parsed_netlist))"

section \<open>Strings\<close>

text \<open>
  The string methods the parser uses, on code points below 256. \<^verbatim>\<open>str.strip\<close>,
  \<^verbatim>\<open>str.split()\<close>, \<^verbatim>\<open>int\<close> and the class \<^verbatim>\<open>\s\<close> of a \<^verbatim>\<open>str\<close> pattern share one notion of
  whitespace: tab, line feed, vertical tab, form feed, carriage return, the separators
  0x1C to 0x1F, space, 0x85 and 0xA0.
\<close>

definition is_space :: "char \<Rightarrow> bool" where
  "is_space c \<longleftrightarrow> c \<in> set [CHR 0x09, CHR 0x0A, CHR 0x0B, CHR 0x0C, CHR 0x0D,
     CHR 0x1C, CHR 0x1D, CHR 0x1E, CHR 0x1F, CHR 0x20, CHR 0x85, CHR 0xA0]"

text \<open>The line boundaries of \<^verbatim>\<open>str.splitlines\<close> below 256.\<close>

definition is_line_break :: "char \<Rightarrow> bool" where
  "is_line_break c \<longleftrightarrow> c \<in> set [CHR 0x0A, CHR 0x0B, CHR 0x0C, CHR 0x0D,
     CHR 0x1C, CHR 0x1D, CHR 0x1E, CHR 0x85]"

definition is_digit :: "char \<Rightarrow> bool" where
  "is_digit c \<longleftrightarrow> c \<in> set ''0123456789''"

text \<open>The class \<^verbatim>\<open>[A-Za-z_]\<close>.\<close>

definition is_alpha_us :: "char \<Rightarrow> bool" where
  "is_alpha_us c \<longleftrightarrow> c \<in> set ''ABCDEFGHIJKLMNOPQRSTUVWXYZabcdefghijklmnopqrstuvwxyz_''"

text \<open>The class \<^verbatim>\<open>[A-Za-z0-9_]\<close>.\<close>

definition is_word :: "char \<Rightarrow> bool" where
  "is_word c \<longleftrightarrow> is_alpha_us c \<or> is_digit c"

text \<open>The class \<^verbatim>\<open>[A-Za-z0-9_,\s]\<close> of the group \<^verbatim>\<open>args\<close>.\<close>

definition is_args_char :: "char \<Rightarrow> bool" where
  "is_args_char c \<longleftrightarrow> is_word c \<or> c = CHR '','' \<or> is_space c"

text \<open>
  \<^verbatim>\<open>text.splitlines()\<close>: a carriage return followed by a line feed is one boundary, and
  there is no empty last line after a final boundary.
\<close>

fun splitlines_from :: "string \<Rightarrow> string \<Rightarrow> string list" where
  "splitlines_from cur [] = (if cur = [] then [] else [cur])"
| "splitlines_from cur [c] =
    (if is_line_break c then [cur] else [cur @ [c]])"
| "splitlines_from cur (c # d # cs) =
    (if c = CHR 0x0D \<and> d = CHR 0x0A then cur # splitlines_from [] cs
     else if is_line_break c then cur # splitlines_from [] (d # cs)
     else splitlines_from (cur @ [c]) (d # cs))"

definition splitlines :: "string \<Rightarrow> string list" where
  "splitlines s = splitlines_from [] s"

definition strip :: "string \<Rightarrow> string" where
  "strip s = rev (dropWhile is_space (rev (dropWhile is_space s)))"

definition startswith :: "string \<Rightarrow> string \<Rightarrow> bool" where
  "startswith s pfx \<longleftrightarrow> take (length pfx) s = pfx"

text \<open>\<^verbatim>\<open>s.split()\<close>: the maximal runs of characters that are not whitespace.\<close>

fun split_ws_from :: "string \<Rightarrow> string \<Rightarrow> string list" where
  "split_ws_from cur [] = (if cur = [] then [] else [cur])"
| "split_ws_from cur (c # cs) =
    (if is_space c then (if cur = [] then split_ws_from [] cs else cur # split_ws_from [] cs)
     else split_ws_from (cur @ [c]) cs)"

definition split_ws :: "string \<Rightarrow> string list" where
  "split_ws s = split_ws_from [] s"

text \<open>\<^verbatim>\<open>s.split(sep)\<close> for a one-character separator: empty pieces are kept.\<close>

fun split_on_from :: "char \<Rightarrow> string \<Rightarrow> string \<Rightarrow> string list" where
  "split_on_from sep cur [] = [cur]"
| "split_on_from sep cur (c # cs) =
    (if c = sep then cur # split_on_from sep [] cs else split_on_from sep (cur @ [c]) cs)"

definition split_on :: "char \<Rightarrow> string \<Rightarrow> string list" where
  "split_on sep s = split_on_from sep [] s"

text \<open>\<^verbatim>\<open>s.split(":", 1)[1]\<close>: what follows the first colon, IndexError when there is none.\<close>

definition after_colon :: "string \<Rightarrow> error + string" where
  "after_colon s =
    (case dropWhile (\<lambda>c. c \<noteq> CHR '':'') s of [] \<Rightarrow> Inl IndexError | c # r \<Rightarrow> Inr r)"

text \<open>
  \<^verbatim>\<open>int(s)\<close> in base 10: surrounding whitespace, an optional sign, then decimal digits,
  where single underscores may stand between digits. The message of the ValueError
  leaves out the quoted literal.
\<close>

definition digit_val :: "char \<Rightarrow> int" where
  "digit_val c = int (of_char c) - 48"

fun int_digits :: "bool \<Rightarrow> int \<Rightarrow> string \<Rightarrow> int option" where
  "int_digits prev acc [] = (if prev then Some acc else None)"
| "int_digits prev acc (c # cs) =
    (if is_digit c then int_digits True (acc * 10 + digit_val c) cs
     else if c = CHR ''_'' \<and> prev then int_digits False acc cs
     else None)"

definition py_int :: "string \<Rightarrow> error + int" where
  "py_int s =
    (let body = strip s;
         r = (case body of
                [] \<Rightarrow> None
              | c # cs \<Rightarrow>
                  if c = CHR ''-'' then map_option uminus (int_digits False 0 cs)
                  else if c = CHR ''+'' then int_digits False 0 cs
                  else int_digits False 0 body)
     in case r of
          None \<Rightarrow> Inl (ValueError ''invalid literal for int() with base 10'')
        | Some n \<Rightarrow> Inr n)"

section \<open>The netlist parser\<close>

text \<open>
  The pattern \<^verbatim>\<open>gate_re\<close> of lines 51-55:
  \<^verbatim>\<open>^(?P<out>[A-Za-z_][A-Za-z0-9_]*)\s*=\s*(?P<type>AND|OR|XOR|NOT)\s*\(\s*(?P<args>[A-Za-z0-9_,\s]+)\s*\)\s*$\<close>.
  Every choice of the matcher is forced. The group \<^verbatim>\<open>out\<close> is the longest run of word
  characters, since the next character has to be whitespace or \<^verbatim>\<open>=\<close>. The four kinds
  start with different letters. After the opening parenthesis, the run of characters of
  the class of \<^verbatim>\<open>args\<close> ends at the first character outside the class, which has to be the
  closing parenthesis; greedy \<^verbatim>\<open>\s*\<close> takes the leading whitespace of the run and the group
  \<^verbatim>\<open>args\<close> the rest of it (its last character when the run is whitespace only). After the
  closing parenthesis only whitespace may follow. The matcher is written in three parts,
  from the end of the pattern to its start.
\<close>

definition match_type :: "string \<Rightarrow> (string \<times> string) option" where
  "match_type s =
    (if startswith s ''AND'' then Some (''AND'', drop 3 s)
     else if startswith s ''OR'' then Some (''OR'', drop 2 s)
     else if startswith s ''XOR'' then Some (''XOR'', drop 3 s)
     else if startswith s ''NOT'' then Some (''NOT'', drop 3 s)
     else None)"

text \<open>
  The end of the pattern, after the opening parenthesis and its \<^verbatim>\<open>\s*\<close>:
  \<^verbatim>\<open>(?P<args>[A-Za-z0-9_,\s]+)\s*\)\s*$\<close>. The result is the group \<^verbatim>\<open>args\<close>.
\<close>

definition match_args :: "string \<Rightarrow> string option" where
  "match_args r5 =
    (let chars = takeWhile is_args_char r5;
         args = (if dropWhile is_space chars = [] then [last chars]
                 else dropWhile is_space chars)
     in if chars = [] then None
        else
          (case dropWhile is_args_char r5 of
             [] \<Rightarrow> None
           | q # r7 \<Rightarrow>
               if q = CHR '')'' \<and> dropWhile is_space r7 = [] then Some args else None))"

text \<open>
  The pattern after the equals sign: \<^verbatim>\<open>\s*(?P<type>AND|OR|XOR|NOT)\s*\(\s*\<close> and the end
  above. The result is the groups \<^verbatim>\<open>type\<close> and \<^verbatim>\<open>args\<close>.
\<close>

definition match_call :: "string \<Rightarrow> (string \<times> string) option" where
  "match_call r2 =
    (case match_type (dropWhile is_space r2) of
       None \<Rightarrow> None
     | Some (gtype, r4) \<Rightarrow>
         (case dropWhile is_space r4 of
            [] \<Rightarrow> None
          | p # r5 \<Rightarrow>
              if p \<noteq> CHR ''('' then None
              else
                (case match_args r5 of
                   None \<Rightarrow> None
                 | Some args \<Rightarrow> Some (gtype, args))))"

text \<open>
  \<^verbatim>\<open>gate_re.match(line)\<close>: the group \<^verbatim>\<open>out\<close>, then \<^verbatim>\<open>\s*=\<close>, then the rest. The result is
  the three groups.
\<close>

definition gate_re_match :: "string \<Rightarrow> (string \<times> string \<times> string) option" where
  "gate_re_match ln =
    (case ln of
       [] \<Rightarrow> None
     | c # cs \<Rightarrow>
         if \<not> is_alpha_us c then None
         else
           (case dropWhile is_space (dropWhile is_word ln) of
              [] \<Rightarrow> None
            | e # r2 \<Rightarrow>
                if e \<noteq> CHR ''='' then None
                else
                  (case match_call r2 of
                     None \<Rightarrow> None
                   | Some (gtype, args) \<Rightarrow> Some (takeWhile is_word ln, gtype, args))))"

text \<open>
  The gate loop, lines 57-76. The index \<^verbatim>\<open>i\<close> of the source is the list of the lines from
  \<^verbatim>\<open>i\<close> on; the result is the gate list and the lines that are left.
\<close>

definition quoted :: "string \<Rightarrow> string" where
  "quoted s = [CHR 0x27] @ s @ [CHR 0x27]"

fun parse_gates ::
  "string list \<Rightarrow> string set \<Rightarrow> gate list \<Rightarrow> error + (gate list \<times> string list)" where
  "parse_gates [] defined gates = Inr (gates, [])"
| "parse_gates (ln # lines) defined gates =
    (if startswith ln ''STIMULUS:'' then Inr (gates, ln # lines)
     else
       (case gate_re_match ln of
          None \<Rightarrow> Inl (ValueError (''Invalid gate line: '' @ quoted ln))
        | Some (out, gtype, args_text) \<Rightarrow>
            (let args = map strip (split_on CHR '','' args_text) in
             if gtype = ''NOT'' \<and> length args \<noteq> 1
             then Inl (TypeError (''Gate '' @ out @ '' of type NOT must have 1 input''))
             else if gtype \<in> {''AND'', ''OR'', ''XOR''} \<and> length args \<noteq> 2
             then Inl (TypeError (''Gate '' @ out @ '' of type '' @ gtype @ '' must have 2 inputs''))
             else if out \<in> defined
             then Inl (ValueError (''Gate '' @ out @ '' defined more than once''))
             else parse_gates lines (insert out defined)
                    (gates @ [\<lparr>g_name = out, g_type = gtype, g_inputs = args\<rparr>]))))"

text \<open>
  The stimulus loop, lines 88-100: the checks of one line, which give the event
  \<^verbatim>\<open>(t, vals)\<close>, and the loop that appends it and moves \<^verbatim>\<open>last_time\<close>.
\<close>

definition stimulus_line :: "string \<Rightarrow> string list \<Rightarrow> int \<Rightarrow> error + (int \<times> string list)" where
  "stimulus_line ln inputs last_time =
    (let parts = split_ws ln in
     if length parts \<noteq> length inputs + 1
     then Inl (ValueError (''Invalid stimulus line: '' @ ln))
     else
       (case py_int (parts ! 0) of
          Inl e \<Rightarrow> Inl e
        | Inr t \<Rightarrow>
            if t \<le> last_time
            then Inl (ValueError ''Stimulus times must be strictly increasing'')
            else
              (let vals = tl parts in
               if \<exists>v \<in> set vals. v \<noteq> ''0'' \<and> v \<noteq> ''1''
               then Inl (ValueError (''Stimulus values must be 0 or 1: '' @ ln))
               else Inr (t, vals))))"

fun parse_stimuli ::
  "string list \<Rightarrow> string list \<Rightarrow> int \<Rightarrow> (int \<times> string list) list
     \<Rightarrow> error + (int \<times> string list) list" where
  "parse_stimuli [] inputs last_time stimuli = Inr stimuli"
| "parse_stimuli (ln # lines) inputs last_time stimuli =
    (case stimulus_line ln inputs last_time of
       Inl e \<Rightarrow> Inl e
     | Inr (t, vals) \<Rightarrow> parse_stimuli lines inputs t (stimuli @ [(t, vals)]))"

text \<open>\<^verbatim>\<open>expect(prefix, idx)\<close>, lines 25-28, on the lines from \<^verbatim>\<open>idx\<close> on.\<close>

definition expect :: "string \<Rightarrow> string list \<Rightarrow> error + string list" where
  "expect pfx rest =
    (if rest = [] \<or> \<not> startswith (hd rest) pfx
     then Inl (ValueError (''Expected '' @ quoted pfx @ '' section''))
     else Inr rest)"

text \<open>\<^verbatim>\<open>lines[i].split(":", 1)[1].strip().split()\<close>.\<close>

definition section_names :: "string \<Rightarrow> error + string list" where
  "section_names ln = (case after_colon ln of Inl e \<Rightarrow> Inl e | Inr r \<Rightarrow> Inr (split_ws (strip r)))"

text \<open>Lines 22-23: the stripped lines that are neither empty nor comments.\<close>

definition netlist_lines :: "string \<Rightarrow> string list" where
  "netlist_lines text = filter (\<lambda>ln. ln \<noteq> [] \<and> \<not> startswith ln ''#'') (map strip (splitlines text))"

text \<open>
  Lines 30-83: the sections INPUTS, OUTPUTS and GATES and the header of STIMULUS. The
  result holds the lines after that header.
\<close>

definition parse_sections ::
  "string list \<Rightarrow> error + (string list \<times> string list \<times> gate list \<times> string list)" where
  "parse_sections lines =
    (case expect ''INPUTS:'' lines of
       Inl e \<Rightarrow> Inl e
     | Inr l0 \<Rightarrow>
    (case section_names (hd l0) of
       Inl e \<Rightarrow> Inl e
     | Inr inputs \<Rightarrow>
    (if inputs = [] then Inl (ValueError ''INPUTS section cannot be empty'')
     else
    (case expect ''OUTPUTS:'' (tl l0) of
       Inl e \<Rightarrow> Inl e
     | Inr l1 \<Rightarrow>
    (case section_names (hd l1) of
       Inl e \<Rightarrow> Inl e
     | Inr outputs \<Rightarrow>
    (if outputs = [] then Inl (ValueError ''OUTPUTS section cannot be empty'')
     else
    (case expect ''GATES:'' (tl l1) of
       Inl e \<Rightarrow> Inl e
     | Inr l2 \<Rightarrow>
    (case parse_gates (tl l2) (set inputs) [] of
       Inl e \<Rightarrow> Inl e
     | Inr (gates, l3) \<Rightarrow>
    (if gates = [] then Inl (ValueError ''GATES section cannot be empty'')
     else
    (case expect ''STIMULUS:'' l3 of
       Inl e \<Rightarrow> Inl e
     | Inr l4 \<Rightarrow> Inr (inputs, outputs, gates, tl l4)))))))))))"

text \<open>\<^verbatim>\<open>parse_netlist(text)\<close>, lines 21-102.\<close>

definition parse_netlist :: "string \<Rightarrow> error + netlist" where
  "parse_netlist text =
    (case parse_sections (netlist_lines text) of
       Inl e \<Rightarrow> Inl e
     | Inr (inputs, outputs, gates, rest) \<Rightarrow>
         (case parse_stimuli rest inputs (- 1) [] of
            Inl e \<Rightarrow> Inl e
          | Inr stimuli \<Rightarrow> Inr (inputs, outputs, gates, stimuli)))"

text \<open>
  \<^verbatim>\<open>main\<close>, lines 200-202, without the files: parse, then simulate. The first error ends
  the run.
\<close>

definition run :: "string \<Rightarrow> error + string dict" where
  "run text = (case parse_netlist text of Inl e \<Rightarrow> Inl e | Inr parsed \<Rightarrow> simulate parsed)"

text \<open>A document from its lines, each ended by a line feed.\<close>

definition document :: "string list \<Rightarrow> string" where
  "document lns = concat (map (\<lambda>ln. ln @ [CHR 0x0A]) lns)"

section \<open>Specification of the dependency order\<close>

text \<open>The dependency sets of a dict with the names in \<open>E\<close> removed from each.\<close>

definition subtract :: "string set \<Rightarrow> (string set) dict \<Rightarrow> (string set) dict" where
  "subtract E D = map (\<lambda>p. (fst p, snd p - E)) D"

text \<open>
  A list of names is in dependency order for a dict of dependency sets when the set of
  every name in it holds only names that stand earlier in the list.
\<close>

definition topo_ok :: "(string set) dict \<Rightarrow> string list \<Rightarrow> bool" where
  "topo_ok D ns \<longleftrightarrow> (\<forall>pre n post ds. ns = pre @ n # post \<longrightarrow> (n, ds) \<in> set D \<longrightarrow> ds \<subseteq> set pre)"

text \<open>
  The invariant of the \<^verbatim>\<open>while ready\<close> loop: no name is emitted or ready twice, the names
  emitted or ready are the gates all of whose dependencies are emitted, and the emitted
  names are in dependency order.
\<close>

definition kahn_inv :: "(string set) dict \<Rightarrow> string list \<Rightarrow> (string \<times> string) list \<Rightarrow> bool" where
  "kahn_inv D ready order \<longleftrightarrow>
     distinct (map fst order @ ready) \<and>
     set (map fst order) \<union> set ready = {h. \<exists>ds. (h, ds) \<in> set D \<and> ds \<subseteq> set (map fst order)} \<and>
     topo_ok D (map fst order)"

text \<open>
  The gate-to-gate dependency graph of a gate list: an edge leads from \<open>d\<close> to the name of a
  gate when \<open>d\<close> is an argument of that gate and the name of a gate.
\<close>

definition gate_edges :: "gate list \<Rightarrow> (string \<times> string) set" where
  "gate_edges gates =
     set [(d, g_name g). g \<leftarrow> gates, d \<leftarrow> g_inputs g, d \<in> set (map g_name gates)]"

text \<open>The edges a dict of dependency sets stands for.\<close>

definition dict_edges :: "(string set) dict \<Rightarrow> (string \<times> string) set" where
  "dict_edges D = {(d, n). \<exists>ds. (n, ds) \<in> set D \<and> d \<in> ds}"

text \<open>The error of line 130.\<close>

definition cyclic_error :: error where
  "cyclic_error = ValueError ''Cyclic or unresolved gate dependencies detected''"

text \<open>\<open>a\<close> stands at an earlier position of the list than \<open>b\<close>.\<close>

definition comes_before :: "'a list \<Rightarrow> 'a \<Rightarrow> 'a \<Rightarrow> bool" where
  "comes_before xs a b \<longleftrightarrow> (\<exists>i j. i < j \<and> j < length xs \<and> xs ! i = a \<and> xs ! j = b)"

text \<open>A gate has a known kind and the number of arguments of its kind.\<close>

definition gate_ok :: "gate \<Rightarrow> bool" where
  "gate_ok g \<longleftrightarrow>
     (g_type g = ''NOT'' \<and> length (g_inputs g) = 1)
     \<or> (g_type g \<in> {''AND'', ''OR'', ''XOR''} \<and> length (g_inputs g) = 2)"

text \<open>
  A valid topological order of a gate list: every gate once, with its kind, and each gate
  after every gate whose output name is among its arguments.
\<close>

definition valid_order :: "gate list \<Rightarrow> (string \<times> string) list \<Rightarrow> bool" where
  "valid_order gates order \<longleftrightarrow>
     distinct (map fst order)
     \<and> set order = (\<lambda>g. (g_name g, g_type g)) ` set gates
     \<and> (\<forall>g \<in> set gates. \<forall>d \<in> set (g_inputs g).
           d \<in> set (map g_name gates) \<longrightarrow> comes_before (map fst order) d (g_name g))"

text \<open>
  A store solves a gate list when the value of every gate is what \<^const>\<open>eval_gate\<close> returns on
  the values the store gives to the arguments of the gate.
\<close>

definition solves :: "gate list \<Rightarrow> (string \<rightharpoonup> string) \<Rightarrow> bool" where
  "solves gates s \<longleftrightarrow>
     (\<forall>g \<in> set gates. \<exists>vals v. lookup_all s (g_inputs g) = Inr vals
        \<and> eval_gate (g_type g) vals = Inr v \<and> (v = ''0'' \<or> v = ''1'') \<and> s (g_name g) = Some v)"

text \<open>The binding of the primary inputs of one event, lines 163-164.\<close>

definition bind_inputs :: "string list \<Rightarrow> string list \<Rightarrow> (string \<rightharpoonup> string) \<Rightarrow> (string \<rightharpoonup> string)" where
  "bind_inputs inputs vals s = fold (\<lambda>(name, val) s. s(name \<mapsto> val)) (zip inputs vals) s"

text \<open>
  The invariants the specification lists for a netlist: the three lists are not empty, the
  names of inputs and gates are pairwise distinct, every gate has the arity of its kind,
  every gate argument is a primary input or a gate output, the dependency graph is
  acyclic, the stimulus times increase strictly, and every event has one boolean value
  per primary input.
\<close>

definition valid_netlist :: "netlist \<Rightarrow> bool" where
  "valid_netlist nl \<longleftrightarrow>
     (case nl of (inputs, outputs, gates, stimuli) \<Rightarrow>
        inputs \<noteq> [] \<and> outputs \<noteq> [] \<and> gates \<noteq> []
        \<and> distinct (inputs @ map g_name gates)
        \<and> (\<forall>g \<in> set gates. gate_ok g \<and> set (g_inputs g) \<subseteq> set inputs \<union> set (map g_name gates))
        \<and> acyclic (gate_edges gates)
        \<and> sorted_wrt (<) (map fst stimuli)
        \<and> (\<forall>ev \<in> set stimuli. length (snd ev) = length inputs \<and> set (snd ev) \<subseteq> {''0'', ''1''}))"

text \<open>The part of the invariants that the gate loop of an event relies on.\<close>

definition gates_ready :: "string list \<Rightarrow> gate list \<Rightarrow> bool" where
  "gates_ready inputs gates \<longleftrightarrow>
     distinct (map g_name gates)
     \<and> (\<forall>g \<in> set gates. gate_ok g \<and> set (g_inputs g) \<subseteq> set inputs \<union> g_name ` set gates)
     \<and> acyclic (gate_edges gates)"

section \<open>The dependency resolver: the loop and its invariant\<close>

lemma relax_eq:
  "relax node deps ready =
     (map (\<lambda>p. (fst p, snd p - {node})) deps,
      ready @ map fst (filter (\<lambda>p. node \<in> snd p \<and> snd p \<subseteq> {node}) deps))"
proof (induction deps arbitrary: ready)
  case Nil
  show ?case by simp
next
  case (Cons p deps)
  obtain h ds where p: "p = (h, ds)" by (cases p)
  have e: "ds - {node} = {} \<longleftrightarrow> ds \<subseteq> {node}" by blast
  show ?case
  proof (cases "node \<in> ds")
    case True
    show ?thesis
    proof (cases "ds \<subseteq> {node}")
      case True
      with \<open>node \<in> ds\<close> p e show ?thesis by (simp add: Cons.IH)
    next
      case False
      with \<open>node \<in> ds\<close> p e show ?thesis by (simp add: Cons.IH)
    qed
  next
    case False
    with p show ?thesis by (simp add: Cons.IH)
  qed
qed

lemma relax_subtract:
  "relax node (subtract E D) ready =
     (subtract (insert node E) D,
      ready @ map fst (filter (\<lambda>p. node \<in> snd p \<and> node \<notin> E \<and> snd p \<subseteq> insert node E) D))"
proof -
  have 1: "map (\<lambda>p. (fst p, snd p - {node})) (subtract E D) = subtract (insert node E) D"
    unfolding subtract_def by (auto simp: o_def)
  have 2: "map fst (filter (\<lambda>p. node \<in> snd p \<and> snd p \<subseteq> {node}) (subtract E D))
        = map fst (filter (\<lambda>p. node \<in> snd p \<and> node \<notin> E \<and> snd p \<subseteq> insert node E) D)"
    unfolding subtract_def by (induction D) auto
  show ?thesis unfolding relax_eq 1 2 ..
qed

lemma topo_ok_snoc:
  assumes "topo_ok D ns" and "\<And>ds. (n, ds) \<in> set D \<Longrightarrow> ds \<subseteq> set ns"
  shows "topo_ok D (ns @ [n])"
  unfolding topo_ok_def
proof (intro allI impI)
  fix pre m post ds
  assume eq: "ns @ [n] = pre @ m # post" and m: "(m, ds) \<in> set D"
  show "ds \<subseteq> set pre"
  proof (cases post rule: rev_cases)
    case Nil
    with eq have "pre = ns" "m = n" by auto
    with assms(2) m show ?thesis by simp
  next
    case (snoc post' z)
    with eq have "ns = pre @ m # post'" by auto
    with assms(1) m show ?thesis unfolding topo_ok_def by blast
  qed
qed

lemma distinct_keys_unique:
  "distinct (map fst D) \<Longrightarrow> (h, a) \<in> set D \<Longrightarrow> (h, b) \<in> set D \<Longrightarrow> a = b"
  by (metis eq_key_imp_eq_value)

lemma kahn_step:
  assumes dD: "distinct (map fst D)" and inv: "kahn_inv D (r1 @ [node]) order"
  defines "E \<equiv> set (map fst order)"
  defines "new \<equiv> map fst (filter (\<lambda>p. node \<in> snd p \<and> node \<notin> E \<and> snd p \<subseteq> insert node E) D)"
  shows "kahn_inv D (r1 @ new) (order @ [(node, ty)])"
proof -
  from inv have d0: "distinct (map fst order @ r1 @ [node])"
    and s0: "E \<union> set (r1 @ [node]) = {h. \<exists>ds. (h, ds) \<in> set D \<and> ds \<subseteq> E}"
    and t0: "topo_ok D (map fst order)"
    unfolding kahn_inv_def E_def by auto
  have nodeE: "node \<notin> E" using d0 unfolding E_def by auto
  from s0 have "node \<in> {h. \<exists>ds. (h, ds) \<in> set D \<and> ds \<subseteq> E}" by auto
  then obtain dn where dn: "(node, dn) \<in> set D" "dn \<subseteq> E" by auto
  have node_deps: "\<And>ds. (node, ds) \<in> set D \<Longrightarrow> ds \<subseteq> E"
    using distinct_keys_unique[OF dD dn(1)] dn(2) by blast
  have new_set: "set new = {h. \<exists>ds. (h, ds) \<in> set D \<and> node \<in> ds \<and> ds \<subseteq> insert node E}"
    unfolding new_def using nodeE by force
  have new_fresh: "set new \<inter> (E \<union> set (r1 @ [node])) = {}"
  proof (rule ccontr)
    assume "set new \<inter> (E \<union> set (r1 @ [node])) \<noteq> {}"
    then obtain h where h1: "h \<in> set new" and h2: "h \<in> E \<union> set (r1 @ [node])" by blast
    from h1 new_set obtain ds where ds: "(h, ds) \<in> set D" "node \<in> ds" by auto
    from h2 s0 obtain ds' where ds': "(h, ds') \<in> set D" "ds' \<subseteq> E" by blast
    from distinct_keys_unique[OF dD ds(1) ds'(1)] ds(2) ds'(2) nodeE show False by auto
  qed
  have new_dist: "distinct new"
    unfolding new_def using dD by (simp add: distinct_map_filter)
  have d1: "distinct (map fst (order @ [(node, ty)]) @ r1 @ new)"
    using d0 new_fresh new_dist unfolding E_def by auto
  have s1: "set (map fst (order @ [(node, ty)])) \<union> set (r1 @ new)
          = {h. \<exists>ds. (h, ds) \<in> set D \<and> ds \<subseteq> set (map fst (order @ [(node, ty)]))}"
  proof -
    have e: "set (map fst (order @ [(node, ty)])) = insert node E" unfolding E_def by auto
    have l: "insert node E \<union> set (r1 @ new) = (E \<union> set (r1 @ [node])) \<union> set new"
      by auto
    have x: "(E \<union> set (r1 @ [node])) \<union> set new = {h. \<exists>ds. (h, ds) \<in> set D \<and> ds \<subseteq> insert node E}"
      unfolding s0 new_set by blast
    show ?thesis by (simp only: e l x)
  qed
  have t1: "topo_ok D (map fst (order @ [(node, ty)]))"
    using topo_ok_snoc[OF t0, of node] node_deps unfolding E_def by simp
  show ?thesis unfolding kahn_inv_def using d1 s1 t1 by simp
qed

lemma topo_loop_inv:
  assumes dD: "distinct (map fst D)"
  shows "fst ` set D \<subseteq> fst ` set type_lookup \<Longrightarrow>
         deps = subtract (set (map fst order)) D \<Longrightarrow> kahn_inv D ready order \<Longrightarrow>
         \<exists>order'. topo_loop type_lookup deps ready order = Inr order' \<and> kahn_inv D [] order'
            \<and> (\<forall>p \<in> set order'. p \<in> set order \<or> map_of type_lookup (fst p) = Some (snd p))"
proof (induction type_lookup deps ready order rule: topo_loop.induct)
  case (1 type_lookup deps ready order)
  show ?case
  proof (cases "ready = []")
    case True
    have "topo_loop type_lookup deps ready order = Inr order"
      by (subst topo_loop.simps) (simp add: True)
    with "1.prems"(3) True show ?thesis by blast
  next
    case False
    then obtain r1 node where ready: "ready = r1 @ [node]" by (cases ready rule: rev_cases) auto
    note tl = "1.prems"(1)
    let ?E = "set (map fst order)"
    let ?new = "map fst (filter (\<lambda>p. node \<in> snd p \<and> node \<notin> ?E \<and> snd p \<subseteq> insert node ?E) D)"
    from "1.prems"(3) have s: "set (map fst order) \<union> set ready = {h. \<exists>ds. (h, ds) \<in> set D \<and> ds \<subseteq> ?E}"
      unfolding kahn_inv_def by (elim conjE)
    have "node \<in> set (map fst order) \<union> set ready" unfolding ready by simp
    then have "node \<in> {h. \<exists>ds. (h, ds) \<in> set D \<and> ds \<subseteq> ?E}" unfolding s .
    then obtain dn where "(node, dn) \<in> set D" by blast
    then have "fst (node, dn) \<in> fst ` set D" by (rule imageI)
    then have "node \<in> fst ` set D" by simp
    with tl have "node \<in> fst ` set type_lookup" by (rule subsetD)
    then have "map_of type_lookup node \<noteq> None" by (simp add: map_of_eq_None_iff)
    then obtain ty where ty: "map_of type_lookup node = Some ty" by blast
    have rl: "relax node deps r1 = (subtract (insert node ?E) D, r1 @ ?new)"
      unfolding "1.prems"(2) relax_subtract ..
    have inv': "kahn_inv D (r1 @ ?new) (order @ [(node, ty)])"
      by (rule kahn_step[OF dD "1.prems"(3)[unfolded ready]])
    have d': "subtract (insert node ?E) D = subtract (set (map fst (order @ [(node, ty)]))) D"
      by simp
    have n: "node = last ready" and b: "r1 = butlast ready" using ready by simp_all
    have g: "dict_get type_lookup node = Inr ty" by (simp add: dict_get_def ty)
    note ih = "1.IH"[OF False n b g rl[symmetric] tl d' inv']
    then obtain order' where o': "topo_loop type_lookup (subtract (insert node ?E) D) (r1 @ ?new) (order @ [(node, ty)]) = Inr order'"
      "kahn_inv D [] order'"
      "\<forall>p \<in> set order'. p \<in> set (order @ [(node, ty)]) \<or> map_of type_lookup (fst p) = Some (snd p)"
      by blast
    have "topo_loop type_lookup deps ready order = Inr order'"
      by (subst topo_loop.simps)
        (simp only: ready last_snoc butlast_snoc Let_def g sum.case rl prod.case o'(1) snoc_eq_iff_butlast list.simps if_False simp_thms)
    moreover have "\<forall>p \<in> set order'. p \<in> set order \<or> map_of type_lookup (fst p) = Some (snd p)"
      using o'(3) ty by auto
    ultimately show ?thesis using o'(2) by blast
  qed
qed

lemma gate_edges_iff:
  "(d, n) \<in> gate_edges gates \<longleftrightarrow>
     (\<exists>g \<in> set gates. n = g_name g \<and> d \<in> set (g_inputs g) \<and> d \<in> g_name ` set gates)"
  unfolding gate_edges_def by auto

lemma fold_update_keys:
  "fst ` set (fold (\<lambda>g d. AList.update (k g) (v g) d) gs acc) = fst ` set acc \<union> k ` set gs"
  by (induction gs arbitrary: acc) (auto simp: dom_update)

lemma fold_update_distinct:
  "distinct (map fst acc) \<Longrightarrow> distinct (map fst (fold (\<lambda>g d. AList.update (k g) (v g) d) gs acc))"
  by (induction gs arbitrary: acc) (auto simp: distinct_update)

lemma update_fresh: "k \<notin> fst ` set al \<Longrightarrow> AList.update k v al = al @ [(k, v)]"
  by (induction al) auto

lemma fold_update_fresh:
  "distinct (map k gs) \<Longrightarrow> k ` set gs \<inter> fst ` set acc = {} \<Longrightarrow>
   fold (\<lambda>g d. AList.update (k g) (v g) d) gs acc = acc @ map (\<lambda>g. (k g, v g)) gs"
proof (induction gs arbitrary: acc)
  case Nil
  show ?case by simp
next
  case (Cons g gs)
  from Cons.prems have f: "k g \<notin> fst ` set acc" by auto
  have "k ` set gs \<inter> fst ` set (acc @ [(k g, v g)]) = {}" using Cons.prems by auto
  with Cons.IH[of "acc @ [(k g, v g)]"] Cons.prems(1) show ?case
    by (simp add: update_fresh[OF f])
qed

lemma gate_deps_keys: "fst ` set (gate_deps gates) = g_name ` set gates"
  unfolding gate_deps_def Let_def using fold_update_keys[of g_name "\<lambda>g. set (g_inputs g)" gates "[]"]
  by (simp add: image_image split_beta)

lemma gate_deps_distinct: "distinct (map fst (gate_deps gates))"
proof -
  have "map fst (gate_deps gates) = map fst (fold (\<lambda>g d. AList.update (g_name g) (set (g_inputs g)) d) gates [])"
    unfolding gate_deps_def Let_def by (simp add: split_beta)
  then show ?thesis using fold_update_distinct[of "[]" g_name "\<lambda>g. set (g_inputs g)" gates] by simp
qed

lemma gate_deps_distinct_names:
  assumes "distinct (map g_name gates)"
  shows "gate_deps gates = map (\<lambda>g. (g_name g, {d \<in> set (g_inputs g). d \<in> g_name ` set gates})) gates"
  unfolding gate_deps_def Let_def
  using fold_update_fresh[OF assms, of "[]" "\<lambda>g. set (g_inputs g)"] by (simp add: split_beta)

lemma gate_deps_edges:
  assumes "distinct (map g_name gates)"
  shows "(d, n) \<in> gate_edges gates \<longleftrightarrow> (\<exists>ds. (n, ds) \<in> set (gate_deps gates) \<and> d \<in> ds)"
  unfolding gate_edges_iff gate_deps_distinct_names[OF assms] by auto

lemma gate_deps_closed: "(n, ds) \<in> set (gate_deps gates) \<Longrightarrow> ds \<subseteq> g_name ` set gates"
  unfolding gate_deps_def Let_def by (auto simp: split_beta)

lemma kahn_inv_init:
  assumes "distinct (map fst D)"
  shows "kahn_inv D (map fst (filter (\<lambda>p. snd p = {}) D)) []"
proof -
  have 1: "distinct (map fst (filter (\<lambda>p. snd p = {}) D))"
    using assms by (simp add: distinct_map_filter)
  have 2: "set (map fst (filter (\<lambda>p. snd p = {}) D)) = {h. \<exists>ds. (h, ds) \<in> set D \<and> ds \<subseteq> {}}"
    by force
  have 3: "topo_ok D []" unfolding topo_ok_def by simp
  show ?thesis unfolding kahn_inv_def using 1 2 3 by simp
qed

lemma subtract_empty: "subtract {} D = D"
  unfolding subtract_def by simp

lemma type_lookup_keys:
  "fst ` set (fold (\<lambda>g d. AList.update (g_name g) (g_type g) d) gates []) = g_name ` set gates"
  using fold_update_keys[of g_name g_type gates "[]"] by simp

lemma topo_loop_result:
  "\<exists>order. topo_loop (fold (\<lambda>g d. AList.update (g_name g) (g_type g) d) gates [])
              (gate_deps gates) (map fst (filter (\<lambda>p. snd p = {}) (gate_deps gates))) [] = Inr order
     \<and> kahn_inv (gate_deps gates) [] order
     \<and> (\<forall>p \<in> set order. map_of (fold (\<lambda>g d. AList.update (g_name g) (g_type g) d) gates []) (fst p) = Some (snd p))"
proof -
  let ?D = "gate_deps gates"
  have k: "fst ` set ?D \<subseteq> fst ` set (fold (\<lambda>g d. AList.update (g_name g) (g_type g) d) gates [])"
    unfolding gate_deps_keys type_lookup_keys ..
  have s: "?D = subtract (set (map fst [])) ?D" by (simp add: subtract_empty)
  from topo_loop_inv[OF gate_deps_distinct k s kahn_inv_init[OF gate_deps_distinct]]
  show ?thesis by simp
qed

section \<open>The dependency resolver: the result of the sort\<close>

lemma topo_ok_butlast: "topo_ok D (ns @ [n]) \<Longrightarrow> topo_ok D ns"
  unfolding topo_ok_def
proof (intro allI impI)
  fix pre m post ds
  assume a: "\<forall>pre m post ds. ns @ [n] = pre @ m # post \<longrightarrow> (m, ds) \<in> set D \<longrightarrow> ds \<subseteq> set pre"
    and e: "ns = pre @ m # post" and m: "(m, ds) \<in> set D"
  from e have "ns @ [n] = pre @ m # (post @ [n])" by simp
  with a m show "ds \<subseteq> set pre" by blast
qed

lemma topo_ok_step:
  assumes "topo_ok D ns" and "x \<in> set ns" and "(y, x) \<in> dict_edges D"
  shows "y \<in> set ns"
proof -
  from assms(2) obtain pre post where ns: "ns = pre @ x # post" by (auto dest: split_list)
  from assms(3) obtain ds where ds: "(x, ds) \<in> set D" "y \<in> ds" unfolding dict_edges_def by auto
  from assms(1) ns ds(1) have "ds \<subseteq> set pre" unfolding topo_ok_def by blast
  with ds(2) ns show ?thesis by auto
qed

lemma topo_ok_closed:
  assumes "topo_ok D ns" and "x \<in> set ns" and "(y, x) \<in> (dict_edges D)\<^sup>+"
  shows "y \<in> set ns"
  using assms(3)
proof (induction rule: converse_trancl_induct)
  case (base y)
  from topo_ok_step[OF assms(1,2) base] show ?case .
next
  case (step y z)
  from topo_ok_step[OF assms(1) step.IH step.hyps(1)] show ?case .
qed

lemma topo_ok_no_cycle:
  "topo_ok D ns \<Longrightarrow> distinct ns \<Longrightarrow> x \<in> set ns \<Longrightarrow> (x, x) \<notin> (dict_edges D)\<^sup>+"
proof (induction ns rule: rev_induct)
  case Nil
  then show ?case by simp
next
  case (snoc n ns)
  have ok: "topo_ok D ns" using snoc.prems(1) by (rule topo_ok_butlast)
  have dn: "distinct ns" "n \<notin> set ns" using snoc.prems(2) by auto
  show ?case
  proof (cases "x \<in> set ns")
    case True
    from snoc.IH[OF ok dn(1) True] show ?thesis .
  next
    case False
    with snoc.prems(3) have x: "x = n" by auto
    show ?thesis
    proof
      assume "(x, x) \<in> (dict_edges D)\<^sup>+"
      with x have "(n, n) \<in> (dict_edges D)\<^sup>+" by simp
      then obtain z where z: "(n, z) \<in> (dict_edges D)\<^sup>*" "(z, n) \<in> dict_edges D"
        by (auto dest: tranclD2)
      from z(2) obtain ds where ds: "(n, ds) \<in> set D" "z \<in> ds" unfolding dict_edges_def by auto
      have "ns @ [n] = ns @ n # []" by simp
      with snoc.prems(1) ds(1) have "ds \<subseteq> set ns" unfolding topo_ok_def by blast
      with ds(2) have zin: "z \<in> set ns" by auto
      from z(1) have "n = z \<or> (n, z) \<in> (dict_edges D)\<^sup>+" by (auto dest: rtranclD)
      then show False
      proof
        assume "n = z" with zin dn(2) show False by simp
      next
        assume "(n, z) \<in> (dict_edges D)\<^sup>+"
        from topo_ok_closed[OF ok zin this] dn(2) show False by simp
      qed
    qed
  qed
qed

lemma dict_edges_gate_deps:
  "distinct (map g_name gates) \<Longrightarrow> dict_edges (gate_deps gates) = gate_edges gates"
  unfolding dict_edges_def using gate_deps_edges by auto

lemma topo_sort_eq:
  obtains order where "kahn_inv (gate_deps gates) [] order"
    and "\<forall>p \<in> set order. map_of (fold (\<lambda>g d. AList.update (g_name g) (g_type g) d) gates []) (fst p) = Some (snd p)"
    and "topo_sort gates inputs = (if length order \<noteq> length gates then Inl cyclic_error else Inr order)"
proof -
  from topo_loop_result[of gates] obtain order where
    o: "topo_loop (fold (\<lambda>g d. AList.update (g_name g) (g_type g) d) gates [])
              (gate_deps gates) (map fst (filter (\<lambda>p. snd p = {}) (gate_deps gates))) [] = Inr order"
     "kahn_inv (gate_deps gates) [] order"
     "\<forall>p \<in> set order. map_of (fold (\<lambda>g d. AList.update (g_name g) (g_type g) d) gates []) (fst p) = Some (snd p)"
    by blast
  have "topo_sort gates inputs = (if length order \<noteq> length gates then Inl cyclic_error else Inr order)"
    unfolding topo_sort_def Let_def o(1) cyclic_error_def by simp
  with o(2,3) show ?thesis by (rule that)
qed

lemma kahn_final:
  assumes "kahn_inv D [] order"
  shows "distinct (map fst order)"
    and "set (map fst order) = {h. \<exists>ds. (h, ds) \<in> set D \<and> ds \<subseteq> set (map fst order)}"
    and "topo_ok D (map fst order)"
proof -
  note a = assms[unfolded kahn_inv_def append_Nil2 list.set Un_empty_right]
  show "distinct (map fst order)" by (rule a[THEN conjunct1])
  show "set (map fst order) = {h. \<exists>ds. (h, ds) \<in> set D \<and> ds \<subseteq> set (map fst order)}"
    by (rule a[THEN conjunct2, THEN conjunct1])
  show "topo_ok D (map fst order)" by (rule a[THEN conjunct2, THEN conjunct2])
qed

lemma order_names_subset:
  assumes "kahn_inv (gate_deps gates) [] order"
  shows "set (map fst order) \<subseteq> g_name ` set gates"
proof
  fix h assume "h \<in> set (map fst order)"
  then have "h \<in> {h. \<exists>ds. (h, ds) \<in> set (gate_deps gates) \<and> ds \<subseteq> set (map fst order)}"
    using kahn_final(2)[OF assms] by blast
  then obtain ds where "(h, ds) \<in> set (gate_deps gates)" by blast
  then have "fst (h, ds) \<in> fst ` set (gate_deps gates)" by (rule imageI)
  then show "h \<in> g_name ` set gates" unfolding gate_deps_keys by simp
qed

lemma order_complete:
  assumes inv: "kahn_inv (gate_deps gates) [] order"
    and dn: "distinct (map g_name gates)" and ac: "acyclic (gate_edges gates)"
  shows "set (map fst order) = g_name ` set gates"
proof (rule ccontr)
  let ?E = "set (map fst order)"
  let ?Q = "g_name ` set gates - ?E"
  assume "?E \<noteq> g_name ` set gates"
  with order_names_subset[OF inv] obtain q where q: "q \<in> ?Q" by blast
  have "finite (gate_edges gates)" unfolding gate_edges_def by simp
  then have "wf (gate_edges gates)" using ac by (rule finite_acyclic_wf)
  from wfE_min[OF this q] obtain z where z: "z \<in> ?Q" "\<And>y. (y, z) \<in> gate_edges gates \<Longrightarrow> y \<notin> ?Q"
    by blast
  from z(1) have "z \<in> fst ` set (gate_deps gates)" unfolding gate_deps_keys by simp
  then obtain ds where ds: "(z, ds) \<in> set (gate_deps gates)" by force
  have "ds \<subseteq> ?E"
  proof
    fix d assume d: "d \<in> ds"
    with ds have "(d, z) \<in> gate_edges gates" unfolding gate_deps_edges[OF dn] by blast
    from z(2)[OF this] have "d \<notin> ?Q" .
    moreover from gate_deps_closed[OF ds] d have "d \<in> g_name ` set gates" by blast
    ultimately show "d \<in> ?E" by simp
  qed
  with ds have "z \<in> {h. \<exists>ds. (h, ds) \<in> set (gate_deps gates) \<and> ds \<subseteq> ?E}" by blast
  then have "z \<in> ?E" using kahn_final(2)[OF inv] by blast
  with z(1) show False by simp
qed

lemma order_length:
  assumes "kahn_inv (gate_deps gates) [] order"
  shows "length order = card (set (map fst order))"
  using distinct_card[OF kahn_final(1)[OF assms]] by simp

lemma order_cyclic_short:
  assumes inv: "kahn_inv (gate_deps gates) [] order" and cyc: "\<not> acyclic (gate_edges gates)"
  shows "length order < length gates"
proof (cases "distinct (map g_name gates)")
  case True
  from cyc obtain x where x: "(x, x) \<in> (gate_edges gates)\<^sup>+" unfolding acyclic_def by blast
  then obtain z where "(z, x) \<in> gate_edges gates" by (auto dest: tranclD2)
  then have xg: "x \<in> g_name ` set gates" unfolding gate_edges_iff by blast
  have "x \<notin> set (map fst order)"
    using topo_ok_no_cycle[OF kahn_final(3)[OF inv] kahn_final(1)[OF inv], of x] x
    unfolding dict_edges_gate_deps[OF True] by blast
  with xg order_names_subset[OF inv] have "set (map fst order) \<subset> g_name ` set gates" by blast
  then have "card (set (map fst order)) < card (g_name ` set gates)"
    by (intro psubset_card_mono) simp_all
  also have "card (g_name ` set gates) \<le> length gates"
    using card_length[of "map g_name gates"] by simp
  finally show ?thesis unfolding order_length[OF inv] .
next
  case False
  have "card (set (map fst order)) \<le> card (g_name ` set gates)"
    using order_names_subset[OF inv] by (intro card_mono) simp_all
  moreover have "card (g_name ` set gates) < length gates"
  proof -
    have "card (set (map g_name gates)) \<noteq> length (map g_name gates)"
      using False card_distinct by blast
    with card_length[of "map g_name gates"] show ?thesis by simp
  qed
  ultimately show ?thesis unfolding order_length[OF inv] by simp
qed

lemma type_lookup_distinct:
  assumes "distinct (map g_name gates)" and "g \<in> set gates"
  shows "map_of (fold (\<lambda>g d. AList.update (g_name g) (g_type g) d) gates []) (g_name g) = Some (g_type g)"
proof -
  have f: "fold (\<lambda>g d. AList.update (g_name g) (g_type g) d) gates [] = map (\<lambda>g. (g_name g, g_type g)) gates"
    using fold_update_fresh[OF assms(1), of "[]" g_type] by simp
  have "map_of (map (\<lambda>g. (g_name g, g_type g)) gates) (g_name g) = Some (g_type g)"
    using assms by (induction gates) (auto simp: rev_image_eqI)
  then show ?thesis unfolding f .
qed

lemma topo_ok_before:
  assumes ok: "topo_ok D ns" and n: "n \<in> set ns" and ds: "(n, ds) \<in> set D" and d: "d \<in> ds"
  shows "comes_before ns d n"
proof -
  from n obtain j where j: "j < length ns" "ns ! j = n" by (auto simp: in_set_conv_nth)
  have "ns = take j ns @ n # drop (Suc j) ns" using id_take_nth_drop[OF j(1)] j(2) by simp
  with ok ds have "ds \<subseteq> set (take j ns)" unfolding topo_ok_def by blast
  with d have "d \<in> set (take j ns)" by auto
  then obtain i where i: "i < length (take j ns)" "take j ns ! i = d" by (auto simp: in_set_conv_nth)
  then have "i < j" "ns ! i = d" by auto
  with j show ?thesis unfolding comes_before_def by blast
qed

lemma topo_sort_valid:
  assumes dn: "distinct (map g_name gates)" and ac: "acyclic (gate_edges gates)"
  shows "\<exists>order. topo_sort gates inputs = Inr order \<and> valid_order gates order"
proof -
  obtain order where inv: "kahn_inv (gate_deps gates) [] order"
    and ty: "\<forall>p \<in> set order. map_of (fold (\<lambda>g d. AList.update (g_name g) (g_type g) d) gates []) (fst p) = Some (snd p)"
    and ts: "topo_sort gates inputs = (if length order \<noteq> length gates then Inl cyclic_error else Inr order)"
    by (rule topo_sort_eq)
  note names = order_complete[OF inv dn ac]
  have dist: "distinct (map fst order)" by (rule kahn_final(1)[OF inv])
  have "length order = card (g_name ` set gates)" using order_length[OF inv] names by simp
  also have "\<dots> = length gates" using distinct_card[OF dn] by simp
  finally have len: "length order = length gates" .
  have r: "topo_sort gates inputs = Inr order" using ts len by simp
  have s: "set order = (\<lambda>g. (g_name g, g_type g)) ` set gates"
  proof (intro equalityI subsetI)
    fix p assume p: "p \<in> set order"
    then have "fst p \<in> set (map fst order)" by simp
    then obtain g where g: "g \<in> set gates" "fst p = g_name g" unfolding names by blast
    from ty p have "map_of (fold (\<lambda>g d. AList.update (g_name g) (g_type g) d) gates []) (fst p) = Some (snd p)"
      by blast
    with type_lookup_distinct[OF dn g(1)] g(2) have "snd p = g_type g" by simp
    with g show "p \<in> (\<lambda>g. (g_name g, g_type g)) ` set gates" by (auto simp: prod_eq_iff)
  next
    fix p assume "p \<in> (\<lambda>g. (g_name g, g_type g)) ` set gates"
    then obtain g where g: "g \<in> set gates" "p = (g_name g, g_type g)" by blast
    then have "g_name g \<in> set (map fst order)" unfolding names by simp
    then obtain q where q: "q \<in> set order" "fst q = g_name g" by auto
    from ty q have "map_of (fold (\<lambda>g d. AList.update (g_name g) (g_type g) d) gates []) (g_name g) = Some (snd q)"
      by auto
    with type_lookup_distinct[OF dn g(1)] have "snd q = g_type g" by simp
    with q g have "p = q" by (simp add: prod_eq_iff)
    with q show "p \<in> set order" by simp
  qed
  have b: "\<forall>g \<in> set gates. \<forall>d \<in> set (g_inputs g).
                 d \<in> set (map g_name gates) \<longrightarrow> comes_before (map fst order) d (g_name g)"
  proof (intro ballI impI)
    fix g d assume g: "g \<in> set gates" and d: "d \<in> set (g_inputs g)" "d \<in> set (map g_name gates)"
    then have "(d, g_name g) \<in> gate_edges gates" unfolding gate_edges_iff by auto
    then obtain ds where ds: "(g_name g, ds) \<in> set (gate_deps gates)" "d \<in> ds"
      unfolding gate_deps_edges[OF dn] by blast
    have "g_name g \<in> set (map fst order)" unfolding names using g by simp
    from topo_ok_before[OF kahn_final(3)[OF inv] this ds] show "comes_before (map fst order) d (g_name g)" .
  qed
  from r dist s b show ?thesis unfolding valid_order_def by blast
qed

lemma topo_sort_cyclic:
  assumes "\<not> acyclic (gate_edges gates)"
  shows "topo_sort gates inputs = Inl cyclic_error"
proof -
  obtain order where inv: "kahn_inv (gate_deps gates) [] order"
    and ts: "topo_sort gates inputs = (if length order \<noteq> length gates then Inl cyclic_error else Inr order)"
    by (rule topo_sort_eq)
  from order_cyclic_short[OF inv assms] ts show ?thesis by simp
qed

section \<open>Simulation: gate evaluation in dependency order\<close>

lemma lookup_all_cong:
  "(\<And>a. a \<in> set as \<Longrightarrow> s a = s' a) \<Longrightarrow> lookup_all s as = lookup_all s' as"
  by (induction as) (auto split: option.splits sum.splits)

lemma lookup_all_ok:
  "set as \<subseteq> dom s \<Longrightarrow> \<exists>vals. lookup_all s as = Inr vals \<and> length vals = length as"
  by (induction as) (auto split: option.splits sum.splits)

lemma eval_gate_ok:
  assumes "(ty = ''NOT'' \<and> length vals = 1) \<or> (ty \<in> {''AND'', ''OR'', ''XOR''} \<and> length vals = 2)"
  shows "\<exists>v. eval_gate ty vals = Inr v \<and> (v = ''0'' \<or> v = ''1'')"
  using assms by (auto simp: eval_gate_def getitem_def)

lemma find_gate:
  assumes "distinct (map g_name gates)" and "g \<in> set gates"
  shows "find (\<lambda>h. g_name h = g_name g) gates = Some g"
  using assms by (induction gates) (auto simp: rev_image_eqI)

lemma eval_gates_suffix:
  assumes dn: "distinct (map g_name gates)" and ok: "\<forall>g \<in> set gates. gate_ok g"
  shows "distinct (map fst rest) \<Longrightarrow> set (map fst rest) \<inter> done = {} \<Longrightarrow>
         set rest \<subseteq> (\<lambda>g. (g_name g, g_type g)) ` set gates \<Longrightarrow>
         (\<forall>p1 n t p2 g a. rest = p1 @ (n, t) # p2 \<longrightarrow> g \<in> set gates \<longrightarrow> g_name g = n \<longrightarrow>
             a \<in> set (g_inputs g) \<longrightarrow> a \<in> g_name ` set gates \<longrightarrow> a \<in> done \<union> set (map fst p1)) \<Longrightarrow>
         (\<forall>g \<in> set gates. \<forall>a \<in> set (g_inputs g). a \<notin> g_name ` set gates \<longrightarrow> a \<in> dom s) \<Longrightarrow>
         done \<subseteq> dom s \<Longrightarrow>
         \<exists>s'. eval_gates gates rest s = Inr s'
            \<and> (\<forall>x. x \<notin> set (map fst rest) \<longrightarrow> s' x = s x)
            \<and> (\<forall>g \<in> set gates. g_name g \<in> set (map fst rest) \<longrightarrow>
                  (\<exists>vals v. lookup_all s' (g_inputs g) = Inr vals \<and> eval_gate (g_type g) vals = Inr v
                     \<and> (v = ''0'' \<or> v = ''1'') \<and> s' (g_name g) = Some v))"
proof (induction rest arbitrary: s "done")
  case Nil
  then show ?case by simp
next
  case (Cons p rest)
  obtain n t where p: "p = (n, t)" by (cases p)
  from Cons.prems(3) p obtain g where g: "g \<in> set gates" "g_name g = n" "g_type g = t" by auto
  have fg: "find (\<lambda>h. g_name h = n) gates = Some g" using find_gate[OF dn g(1)] g(2) by simp
  have args: "set (g_inputs g) \<subseteq> dom s"
  proof
    fix a assume a: "a \<in> set (g_inputs g)"
    show "a \<in> dom s"
    proof (cases "a \<in> g_name ` set gates")
      case True
      have e: "p # rest = [] @ (n, t) # rest" using p by simp
      from Cons.prems(4)[rule_format, OF e g(1) g(2) a True] have "a \<in> done" by simp
      with Cons.prems(6) show ?thesis by auto
    next
      case False
      with Cons.prems(5) g(1) a show ?thesis by blast
    qed
  qed
  from lookup_all_ok[OF args] obtain vals where vals: "lookup_all s (g_inputs g) = Inr vals"
    "length vals = length (g_inputs g)" by blast
  from ok g(1) have "gate_ok g" by blast
  with vals(2) g(3) have "(t = ''NOT'' \<and> length vals = 1) \<or> (t \<in> {''AND'', ''OR'', ''XOR''} \<and> length vals = 2)"
    unfolding gate_ok_def by auto
  from eval_gate_ok[OF this] obtain v where v: "eval_gate t vals = Inr v" "v = ''0'' \<or> v = ''1''" by blast
  let ?s1 = "s(n \<mapsto> v)"
  have step: "eval_gates gates (p # rest) s = eval_gates gates rest ?s1"
    using p fg vals(1) v(1) by simp
  have nrest: "n \<notin> set (map fst rest)" "distinct (map fst rest)" using Cons.prems(1) p by auto
  have ndone: "n \<notin> done" using Cons.prems(2) p by auto
  have a2: "set (map fst rest) \<inter> insert n done = {}" using Cons.prems(2) nrest(1) by auto
  have a3: "set rest \<subseteq> (\<lambda>g. (g_name g, g_type g)) ` set gates" using Cons.prems(3) by auto
  have a4: "\<forall>p1 m u p2 h a. rest = p1 @ (m, u) # p2 \<longrightarrow> h \<in> set gates \<longrightarrow> g_name h = m \<longrightarrow>
             a \<in> set (g_inputs h) \<longrightarrow> a \<in> g_name ` set gates \<longrightarrow> a \<in> insert n done \<union> set (map fst p1)"
  proof (intro allI impI)
    fix p1 m u p2 h a
    assume r: "rest = p1 @ (m, u) # p2" and h: "h \<in> set gates" "g_name h = m"
      "a \<in> set (g_inputs h)" "a \<in> g_name ` set gates"
    from r p have e: "p # rest = ((n, t) # p1) @ (m, u) # p2" by simp
    from Cons.prems(4)[rule_format, OF e h] have "a \<in> done \<union> set (map fst ((n, t) # p1))" .
    then show "a \<in> insert n done \<union> set (map fst p1)" by auto
  qed
  have a5: "\<forall>g \<in> set gates. \<forall>a \<in> set (g_inputs g). a \<notin> g_name ` set gates \<longrightarrow> a \<in> dom ?s1"
    using Cons.prems(5) by auto
  have a6: "insert n done \<subseteq> dom ?s1" using Cons.prems(6) by auto
  from Cons.IH[OF nrest(2) a2 a3 a4 a5 a6] obtain s' where
    s': "eval_gates gates rest ?s1 = Inr s'"
        "\<forall>x. x \<notin> set (map fst rest) \<longrightarrow> s' x = ?s1 x"
        "\<forall>g \<in> set gates. g_name g \<in> set (map fst rest) \<longrightarrow>
                  (\<exists>vals v. lookup_all s' (g_inputs g) = Inr vals \<and> eval_gate (g_type g) vals = Inr v
                     \<and> (v = ''0'' \<or> v = ''1'') \<and> s' (g_name g) = Some v)"
    by blast
  have c1: "eval_gates gates (p # rest) s = Inr s'" using step s'(1) by simp
  have c2: "\<forall>x. x \<notin> set (map fst (p # rest)) \<longrightarrow> s' x = s x" using s'(2) p by auto
  have sn: "s' n = Some v" using s'(2) nrest(1) by simp
  have keep: "\<And>a. a \<in> set (g_inputs g) \<Longrightarrow> s' a = s a"
  proof -
    fix a assume a: "a \<in> set (g_inputs g)"
    have an: "a \<notin> set (map fst (p # rest))"
    proof (cases "a \<in> g_name ` set gates")
      case True
      have e: "p # rest = [] @ (n, t) # rest" using p by simp
      from Cons.prems(4)[rule_format, OF e g(1) g(2) a True] have "a \<in> done" by simp
      with Cons.prems(2) show ?thesis by auto
    next
      case False
      have "set (map fst (p # rest)) \<subseteq> g_name ` set gates" using Cons.prems(3) by force
      with False show ?thesis by blast
    qed
    with c2 show "s' a = s a" by blast
  qed
  have lg: "lookup_all s' (g_inputs g) = Inr vals" using lookup_all_cong[of "g_inputs g" s' s] keep vals(1) by simp
  have c3: "\<forall>h \<in> set gates. g_name h \<in> set (map fst (p # rest)) \<longrightarrow>
                  (\<exists>vals v. lookup_all s' (g_inputs h) = Inr vals \<and> eval_gate (g_type h) vals = Inr v
                     \<and> (v = ''0'' \<or> v = ''1'') \<and> s' (g_name h) = Some v)"
  proof (intro ballI impI)
    fix h assume h: "h \<in> set gates" "g_name h \<in> set (map fst (p # rest))"
    show "\<exists>vals v. lookup_all s' (g_inputs h) = Inr vals \<and> eval_gate (g_type h) vals = Inr v
                     \<and> (v = ''0'' \<or> v = ''1'') \<and> s' (g_name h) = Some v"
    proof (cases "g_name h = n")
      case True
      with dn h(1) g have "h = g" by (metis distinct_map inj_onD)
      with lg v sn g show ?thesis by blast
    next
      case False
      with h(2) p have "g_name h \<in> set (map fst rest)" by auto
      with s'(3) h(1) show ?thesis by blast
    qed
  qed
  from c1 c2 c3 show ?case by blast
qed

lemma valid_order_positions:
  assumes vo: "valid_order gates order"
    and e: "order = p1 @ (n, t) # p2" and g: "g \<in> set gates" "g_name g = n"
    and a: "a \<in> set (g_inputs g)" "a \<in> g_name ` set gates"
  shows "a \<in> set (map fst p1)"
proof -
  define ns where "ns = map fst order"
  define q1 where "q1 = map fst p1"
  from vo have d: "distinct ns" unfolding valid_order_def ns_def by blast
  from vo g(1) a have "comes_before ns a (g_name g)" unfolding valid_order_def ns_def by simp
  then obtain i j where ij: "i < j" "j < length ns" "ns ! i = a" "ns ! j = n"
    unfolding comes_before_def using g(2) by blast
  have ns: "ns = q1 @ n # map fst p2" unfolding ns_def q1_def using e by simp
  have l: "length q1 < length ns" "ns ! (length q1) = n" unfolding ns by simp_all
  from ij(4) l(2) have "ns ! j = ns ! (length q1)" by simp
  with nth_eq_iff_index_eq[OF d ij(2) l(1)] have "j = length q1" by simp
  with ij(1) have "i < length q1" by simp
  then have "ns ! i \<in> set q1" unfolding ns by (simp add: nth_append)
  with ij(3) show ?thesis unfolding q1_def by simp
qed

lemma eval_gates_valid:
  assumes dn: "distinct (map g_name gates)" and ok: "\<forall>g \<in> set gates. gate_ok g"
    and vo: "valid_order gates order"
    and dom: "\<forall>g \<in> set gates. \<forall>a \<in> set (g_inputs g). a \<notin> g_name ` set gates \<longrightarrow> a \<in> dom s"
  shows "\<exists>s'. eval_gates gates order s = Inr s'
            \<and> (\<forall>x. x \<notin> g_name ` set gates \<longrightarrow> s' x = s x) \<and> solves gates s'"
proof -
  from vo have d: "distinct (map fst order)"
    and so: "set order = (\<lambda>g. (g_name g, g_type g)) ` set gates"
    unfolding valid_order_def by blast+
  have names: "set (map fst order) = g_name ` set gates" using so by (force simp: image_image)
  have a2: "set (map fst order) \<inter> {} = {}" by simp
  have a3: "set order \<subseteq> (\<lambda>g. (g_name g, g_type g)) ` set gates" using so by simp
  have a4: "\<forall>p1 n t p2 g a. order = p1 @ (n, t) # p2 \<longrightarrow> g \<in> set gates \<longrightarrow> g_name g = n \<longrightarrow>
             a \<in> set (g_inputs g) \<longrightarrow> a \<in> g_name ` set gates \<longrightarrow> a \<in> {} \<union> set (map fst p1)"
    using valid_order_positions[OF vo] by simp
  have a6: "{} \<subseteq> dom s" by simp
  from eval_gates_suffix[OF dn ok d a2 a3 a4 dom a6] show ?thesis
    unfolding solves_def names by blast
qed

lemma solution_unique:
  assumes ac: "acyclic (gate_edges gates)"
    and s1: "solves gates s1" and s2: "solves gates s2"
    and out: "\<forall>x. x \<notin> g_name ` set gates \<longrightarrow> s1 x = s2 x"
  shows "s1 = s2"
proof
  fix x
  have "finite (gate_edges gates)" unfolding gate_edges_def by simp
  then have w: "wf (gate_edges gates)" using ac by (rule finite_acyclic_wf)
  show "s1 x = s2 x" using w
  proof (induction x rule: wf_induct_rule)
    case (less n)
    show ?case
    proof (cases "n \<in> g_name ` set gates")
      case False
      with out show ?thesis by blast
    next
      case True
      then obtain g where g: "g \<in> set gates" "g_name g = n" by blast
      have "\<And>a. a \<in> set (g_inputs g) \<Longrightarrow> s1 a = s2 a"
      proof -
        fix a assume a: "a \<in> set (g_inputs g)"
        show "s1 a = s2 a"
        proof (cases "a \<in> g_name ` set gates")
          case False
          with out show ?thesis by blast
        next
          case True
          with g a have "(a, n) \<in> gate_edges gates" unfolding gate_edges_iff by blast
          then show ?thesis by (rule less.IH)
        qed
      qed
      then have l: "lookup_all s1 (g_inputs g) = lookup_all s2 (g_inputs g)" by (rule lookup_all_cong)
      from s1 g(1) obtain vals v where 1: "lookup_all s1 (g_inputs g) = Inr vals"
        "eval_gate (g_type g) vals = Inr v" "s1 (g_name g) = Some v" unfolding solves_def by blast
      from s2 g(1) obtain vals' v' where 2: "lookup_all s2 (g_inputs g) = Inr vals'"
        "eval_gate (g_type g) vals' = Inr v'" "s2 (g_name g) = Some v'" unfolding solves_def by blast
      from l 1(1) 2(1) have "vals = vals'" by simp
      with 1(2) 2(2) have "v = v'" by simp
      with 1(3) 2(3) g(2) show ?thesis by simp
    qed
  qed
qed

lemma eval_gates_order_independent:
  assumes dn: "distinct (map g_name gates)" and ok: "\<forall>g \<in> set gates. gate_ok g"
    and ac: "acyclic (gate_edges gates)"
    and v1: "valid_order gates order1" and v2: "valid_order gates order2"
    and dom: "\<forall>g \<in> set gates. \<forall>a \<in> set (g_inputs g). a \<notin> g_name ` set gates \<longrightarrow> a \<in> dom s"
  shows "eval_gates gates order1 s = eval_gates gates order2 s"
proof -
  from eval_gates_valid[OF dn ok v1 dom] obtain s1 where
    1: "eval_gates gates order1 s = Inr s1" "\<forall>x. x \<notin> g_name ` set gates \<longrightarrow> s1 x = s x" "solves gates s1"
    by blast
  from eval_gates_valid[OF dn ok v2 dom] obtain s2 where
    2: "eval_gates gates order2 s = Inr s2" "\<forall>x. x \<notin> g_name ` set gates \<longrightarrow> s2 x = s x" "solves gates s2"
    by blast
  from 1(2) 2(2) have "\<forall>x. x \<notin> g_name ` set gates \<longrightarrow> s1 x = s2 x" by simp
  from solution_unique[OF ac 1(3) 2(3) this] 1(1) 2(1) show ?thesis by simp
qed

lemma fold_bind_dom:
  "dom (fold (\<lambda>(name, val) s. s(name \<mapsto> val)) zs s) = dom s \<union> fst ` set zs"
  by (induction zs arbitrary: s) (auto simp: split_beta)

lemma fold_bind_other:
  "x \<notin> fst ` set zs \<Longrightarrow> fold (\<lambda>(name, val) s. s(name \<mapsto> val)) zs s x = s x"
  by (induction zs arbitrary: s) (auto simp: split_beta)

lemma fold_bind_value:
  "x \<in> fst ` set zs \<Longrightarrow> \<exists>v \<in> snd ` set zs. fold (\<lambda>(name, val) s. s(name \<mapsto> val)) zs s x = Some v"
proof (induction zs arbitrary: s)
  case Nil
  then show ?case by simp
next
  case (Cons z zs)
  let ?F = "\<lambda>(name, val) s. s(name \<mapsto> val)"
  have st: "fold ?F (z # zs) s = fold ?F zs (s(fst z \<mapsto> snd z))" by (simp add: split_beta)
  show ?case
  proof (cases "x \<in> fst ` set zs")
    case True
    from Cons.IH[OF True, of "s(fst z \<mapsto> snd z)"] obtain v where
      "v \<in> snd ` set zs" "fold ?F zs (s(fst z \<mapsto> snd z)) x = Some v" by blast
    then have "v \<in> snd ` set (z # zs)" "fold ?F (z # zs) s x = Some v" unfolding st by simp_all
    then show ?thesis by blast
  next
    case False
    with Cons.prems have x: "x = fst z" by auto
    from fold_bind_other[OF False, of "s(fst z \<mapsto> snd z)"] x
    have "fold ?F (z # zs) s x = Some (snd z)" unfolding st by simp
    moreover have "snd z \<in> snd ` set (z # zs)" by simp
    ultimately show ?thesis by blast
  qed
qed

lemma bind_inputs_dom:
  "length inputs \<le> length vals \<Longrightarrow> dom (bind_inputs inputs vals s) = dom s \<union> set inputs"
proof -
  assume l: "length inputs \<le> length vals"
  have "fst ` set (zip inputs vals) = set (map fst (zip inputs vals))" by simp
  also have "map fst (zip inputs vals) = inputs" using l by (simp add: map_fst_zip_take)
  finally show ?thesis unfolding bind_inputs_def fold_bind_dom by simp
qed

lemma bind_inputs_other: "x \<notin> set inputs \<Longrightarrow> bind_inputs inputs vals s x = s x"
  unfolding bind_inputs_def by (rule fold_bind_other) (auto dest: set_zip_leftD)

lemma bind_inputs_value:
  assumes "length inputs \<le> length vals" and "x \<in> set inputs"
  shows "\<exists>v \<in> set vals. bind_inputs inputs vals s x = Some v"
proof -
  have "map fst (zip inputs vals) = inputs" using assms(1) by (simp add: map_fst_zip_take)
  then have "fst ` set (zip inputs vals) = set inputs" by (metis set_map)
  with assms(2) have "x \<in> fst ` set (zip inputs vals)" by simp
  from fold_bind_value[OF this, of s] obtain v where
    v: "v \<in> snd ` set (zip inputs vals)" "bind_inputs inputs vals s x = Some v"
    unfolding bind_inputs_def by blast
  from v(1) have "v \<in> set vals" by (auto dest: set_zip_rightD)
  with v(2) show ?thesis by blast
qed

lemma update_present_keys: "k \<in> fst ` set al \<Longrightarrow> map fst (AList.update k v al) = map fst al"
  by (simp add: update_keys)

lemma record_waves_ok:
  "\<forall>n \<in> set names. n \<in> dom signals \<and> n \<in> fst ` set waves \<Longrightarrow>
   \<exists>w'. record_waves names signals waves = Inr w' \<and> map fst w' = map fst waves
     \<and> (\<forall>x. map_of w' x =
           map_option (\<lambda>tr. tr @ concat (map (\<lambda>n. the (signals n)) (filter (\<lambda>n. n = x) names)))
             (map_of waves x))"
proof (induction names arbitrary: waves)
  case Nil
  show ?case by (simp add: option.map_ident)
next
  case (Cons n names)
  from Cons.prems have n: "n \<in> dom signals" "n \<in> fst ` set waves" by auto
  then obtain v where v: "signals n = Some v" by blast
  from n(2) obtain w where w: "map_of waves n = Some w"
    by (metis domD dom_map_of_conv_image_fst)
  let ?w1 = "AList.update n (w @ v) waves"
  have k: "map fst ?w1 = map fst waves" using n(2) by (rule update_present_keys)
  then have "fst ` set ?w1 = fst ` set waves" by (metis set_map)
  with Cons.prems have "\<forall>m \<in> set names. m \<in> dom signals \<and> m \<in> fst ` set ?w1" by auto
  from Cons.IH[OF this] obtain w' where w': "record_waves names signals ?w1 = Inr w'"
    "map fst w' = map fst ?w1"
    "\<forall>x. map_of w' x =
           map_option (\<lambda>tr. tr @ concat (map (\<lambda>n. the (signals n)) (filter (\<lambda>n. n = x) names)))
             (map_of ?w1 x)" by blast
  have r: "record_waves (n # names) signals waves = Inr w'"
    using v w w'(1) by (simp add: dict_get_def)
  have m: "\<forall>x. map_of w' x =
           map_option (\<lambda>tr. tr @ concat (map (\<lambda>n. the (signals n)) (filter (\<lambda>n. n = x) (n # names))))
             (map_of waves x)"
  proof
    fix x
    show "map_of w' x =
           map_option (\<lambda>tr. tr @ concat (map (\<lambda>n. the (signals n)) (filter (\<lambda>n. n = x) (n # names))))
             (map_of waves x)"
    proof (cases "x = n")
      case True
      with w'(3) w v show ?thesis by (simp add: update_conv')
    next
      case False
      with w'(3) show ?thesis by (simp add: update_conv')
    qed
  qed
  from r w'(2) k m show ?case by simp
qed

lemma record_waves_fail:
  assumes "\<forall>n \<in> set pre. n \<in> dom signals \<and> n \<in> fst ` set waves"
    and "k \<in> fst ` set waves" and "signals k = None"
  shows "record_waves (pre @ k # post) signals waves = Inl (KeyError k)"
  using assms
proof (induction pre arbitrary: waves)
  case Nil
  from Nil(2) obtain w where "map_of waves k = Some w" by (metis domD dom_map_of_conv_image_fst)
  with Nil(3) show ?case by (simp add: dict_get_def)
next
  case (Cons n pre)
  from Cons.prems(1) have n: "n \<in> dom signals" "n \<in> fst ` set waves" by auto
  then obtain v where v: "signals n = Some v" by blast
  from n(2) obtain w where w: "map_of waves n = Some w" by (metis domD dom_map_of_conv_image_fst)
  let ?w1 = "AList.update n (w @ v) waves"
  have "map fst ?w1 = map fst waves" using n(2) by (rule update_present_keys)
  then have f: "fst ` set ?w1 = fst ` set waves" by (metis set_map)
  with Cons.prems have 1: "\<forall>m \<in> set pre. m \<in> dom signals \<and> m \<in> fst ` set ?w1"
    and 2: "k \<in> fst ` set ?w1" by auto
  from Cons.IH[OF 1 2 Cons.prems(3)] v w show ?case by (simp add: dict_get_def)
qed

lemma waves_init_keys:
  "fst ` set (fold (\<lambda>s d. AList.update s [] d) names acc) = fst ` set acc \<union> set names"
  by (induction names arbitrary: acc) (auto simp: dom_update)

lemma waves_init_distinct:
  "distinct (map fst acc) \<Longrightarrow> distinct (map fst (fold (\<lambda>s d. AList.update s [] d) names acc))"
  by (induction names arbitrary: acc) (auto simp: distinct_update)

lemma waves_init_value:
  "(\<forall>x. x \<in> fst ` set acc \<longrightarrow> map_of acc x = Some []) \<Longrightarrow>
   x \<in> fst ` set acc \<union> set names \<Longrightarrow>
   map_of (fold (\<lambda>(s::string) (d::string dict). AList.update s [] d) names acc) x = Some []"
proof (induction names arbitrary: acc)
  case Nil
  then show ?case by simp
next
  case (Cons n names)
  have 1: "\<forall>x. x \<in> fst ` set (AList.update n [] acc) \<longrightarrow> map_of (AList.update n [] acc) x = Some []"
    using Cons.prems(1) by (auto simp: update_conv' dom_update)
  have 2: "x \<in> fst ` set (AList.update n [] acc) \<union> set names"
    using Cons.prems(2) by (auto simp: dom_update)
  from Cons.IH[OF 1 2] show ?case by simp
qed

lemma valid_netlist_gates:
  "valid_netlist (inputs, outputs, gates, stimuli) \<Longrightarrow> gates_ready inputs gates"
  unfolding valid_netlist_def gates_ready_def by auto

lemma valid_netlist_stimuli:
  "valid_netlist (inputs, outputs, gates, stimuli) \<Longrightarrow>
     \<forall>ev \<in> set stimuli. length (snd ev) = length inputs \<and> set (snd ev) \<subseteq> {''0'', ''1''}"
  unfolding valid_netlist_def by auto

lemma event_signals:
  assumes gr: "gates_ready inputs gates" and vo: "valid_order gates order"
    and l: "length inputs \<le> length vals"
  shows "\<exists>s2. eval_gates gates order (bind_inputs inputs vals s) = Inr s2
           \<and> (\<forall>x. x \<notin> g_name ` set gates \<longrightarrow> s2 x = bind_inputs inputs vals s x)
           \<and> solves gates s2"
proof -
  from gr have dn: "distinct (map g_name gates)" and ok: "\<forall>g \<in> set gates. gate_ok g"
    and args: "\<forall>g \<in> set gates. set (g_inputs g) \<subseteq> set inputs \<union> g_name ` set gates"
    unfolding gates_ready_def by auto
  have "\<forall>g \<in> set gates. \<forall>a \<in> set (g_inputs g). a \<notin> g_name ` set gates
          \<longrightarrow> a \<in> dom (bind_inputs inputs vals s)"
    using args unfolding bind_inputs_dom[OF l] by blast
  from eval_gates_valid[OF dn ok vo this] show ?thesis .
qed

lemma solves_dom: "solves gates s \<Longrightarrow> g \<in> set gates \<Longrightarrow> \<exists>v. s (g_name g) = Some v \<and> length v = 1"
  unfolding solves_def by fastforce

lemma event_defined:
  assumes l: "length vals = length inputs" and b: "set vals \<subseteq> {''0'', ''1''}"
    and s2: "\<forall>x. x \<notin> g_name ` set gates \<longrightarrow> s2 x = bind_inputs inputs vals s x" "solves gates s2"
    and x: "x \<in> set inputs \<union> g_name ` set gates"
  shows "\<exists>v. s2 x = Some v \<and> length v = 1"
proof (cases "x \<in> g_name ` set gates")
  case True
  then obtain g where "g \<in> set gates" "g_name g = x" by blast
  with solves_dom[OF s2(2)] show ?thesis by blast
next
  case False
  with x have xi: "x \<in> set inputs" by simp
  from l have "length inputs \<le> length vals" by simp
  from bind_inputs_value[OF this xi, of s] obtain v where v: "v \<in> set vals" "bind_inputs inputs vals s x = Some v"
    by blast
  from v(1) b have "length v = 1" by auto
  with v(2) s2(1) False show ?thesis by simp
qed

lemma sim_events_order_independent:
  assumes gr: "gates_ready inputs gates"
    and v1: "valid_order gates order1" and v2: "valid_order gates order2"
  shows "\<forall>ev \<in> set stimuli. length inputs \<le> length (snd ev) \<Longrightarrow>
         sim_events inputs outputs gates order1 stimuli s w
           = sim_events inputs outputs gates order2 stimuli s w"
proof (induction stimuli arbitrary: s w)
  case Nil
  show ?case by simp
next
  case (Cons ev stimuli)
  obtain t vals where ev: "ev = (t, vals)" by (cases ev)
  from Cons.prems ev have l: "length inputs \<le> length vals" by simp
  from gr have dn: "distinct (map g_name gates)" and ok: "\<forall>g \<in> set gates. gate_ok g"
    and args: "\<forall>g \<in> set gates. set (g_inputs g) \<subseteq> set inputs \<union> g_name ` set gates"
    and ac: "acyclic (gate_edges gates)"
    unfolding gates_ready_def by auto
  have d: "\<forall>g \<in> set gates. \<forall>a \<in> set (g_inputs g). a \<notin> g_name ` set gates
          \<longrightarrow> a \<in> dom (bind_inputs inputs vals s)"
    using args unfolding bind_inputs_dom[OF l] by blast
  have e: "eval_gates gates order1 (bind_inputs inputs vals s) = eval_gates gates order2 (bind_inputs inputs vals s)"
    by (rule eval_gates_order_independent[OF dn ok ac v1 v2 d])
  have r: "\<forall>ev \<in> set stimuli. length inputs \<le> length (snd ev)" using Cons.prems by simp
  show ?case unfolding ev sim_events.simps Let_def bind_inputs_def[symmetric] e
    by (simp add: Cons.IH[OF r] split: sum.splits)
qed

lemma comes_before_Nil: "\<not> comes_before [] a b"
  unfolding comes_before_def by simp

lemma comes_before_Cons:
  "comes_before (x # xs) a b \<longleftrightarrow> (x = a \<and> b \<in> set xs) \<or> comes_before xs a b"
proof
  assume "comes_before (x # xs) a b"
  then obtain i j where ij: "i < j" "j < length (x # xs)" "(x # xs) ! i = a" "(x # xs) ! j = b"
    unfolding comes_before_def by blast
  from ij(1) obtain j' where j': "j = Suc j'" by (cases j) auto
  show "(x = a \<and> b \<in> set xs) \<or> comes_before xs a b"
  proof (cases i)
    case 0
    with ij j' have "x = a" "b \<in> set xs" by auto
    then show ?thesis by simp
  next
    case (Suc i')
    with ij j' have "i' < j'" "j' < length xs" "xs ! i' = a" "xs ! j' = b" by auto
    then have "comes_before xs a b" unfolding comes_before_def by blast
    then show ?thesis by simp
  qed
next
  assume "(x = a \<and> b \<in> set xs) \<or> comes_before xs a b"
  then show "comes_before (x # xs) a b"
  proof
    assume h: "x = a \<and> b \<in> set xs"
    then obtain j where "j < length xs" "xs ! j = b" by (auto simp: in_set_conv_nth)
    with h have "0 < Suc j" "Suc j < length (x # xs)" "(x # xs) ! 0 = a" "(x # xs) ! Suc j = b" by auto
    then show ?thesis unfolding comes_before_def by blast
  next
    assume "comes_before xs a b"
    then obtain i j where "i < j" "j < length xs" "xs ! i = a" "xs ! j = b"
      unfolding comes_before_def by blast
    then have "Suc i < Suc j" "Suc j < length (x # xs)" "(x # xs) ! Suc i = a" "(x # xs) ! Suc j = b" by auto
    then show ?thesis unfolding comes_before_def by blast
  qed
qed

lemma simulate_valid_order:
  assumes vn: "valid_netlist (inputs, outputs, gates, stimuli)" and vo: "valid_order gates order"
  shows "simulate (inputs, outputs, gates, stimuli) = simulate_with order (inputs, outputs, gates, stimuli)"
proof -
  note gr = valid_netlist_gates[OF vn]
  from gr have dn: "distinct (map g_name gates)" and ac: "acyclic (gate_edges gates)"
    unfolding gates_ready_def by auto
  from topo_sort_valid[OF dn ac, of inputs] obtain order0 where
    o: "topo_sort gates inputs = Inr order0" "valid_order gates order0" by blast
  have l: "\<forall>ev \<in> set stimuli. length inputs \<le> length (snd ev)"
    using valid_netlist_stimuli[OF vn] by simp
  have "simulate (inputs, outputs, gates, stimuli) = simulate_with order0 (inputs, outputs, gates, stimuli)"
    by (simp add: simulate_def o(1))
  also have "\<dots> = simulate_with order (inputs, outputs, gates, stimuli)"
    unfolding simulate_with_def prod.case
    by (rule sim_events_order_independent[OF gr o(2) vo l])
  finally show ?thesis .
qed

lemma acyclic_empty_edges: "acyclic ({} :: (string \<times> string) set)"
  by (simp add: acyclic_def)

lemma filter_eq_distinct: "distinct xs \<Longrightarrow> x \<in> set xs \<Longrightarrow> filter (\<lambda>n. n = x) xs = [x]"
  by (induction xs) (auto simp: filter_empty_conv)

lemma one_event:
  assumes gr: "gates_ready inputs gates" and vo: "valid_order gates order"
    and l: "length vals = length inputs" and b: "set vals \<subseteq> {''0'', ''1''}"
    and tr: "set outputs \<subseteq> set inputs \<union> g_name ` set gates"
    and keys: "set (inputs @ outputs) \<subseteq> fst ` set waves"
  shows "\<exists>s2 w2. eval_gates gates order (bind_inputs inputs vals s) = Inr s2
          \<and> (\<exists>w1. record_waves inputs s2 waves = Inr w1 \<and> record_waves outputs s2 w1 = Inr w2)
          \<and> map fst w2 = map fst waves
          \<and> (\<forall>x. map_of w2 x =
                map_option (\<lambda>t. t @ concat (map (\<lambda>n. the (s2 n)) (filter (\<lambda>n. n = x) (inputs @ outputs))))
                  (map_of waves x))
          \<and> (\<forall>x \<in> set (inputs @ outputs). \<exists>v. s2 x = Some v \<and> length v = 1)"
proof -
  from l have l': "length inputs \<le> length vals" by simp
  from event_signals[OF gr vo l', of s] obtain s2 where
    s2: "eval_gates gates order (bind_inputs inputs vals s) = Inr s2"
        "\<forall>x. x \<notin> g_name ` set gates \<longrightarrow> s2 x = bind_inputs inputs vals s x"
        "solves gates s2" by blast
  have def: "\<And>x. x \<in> set inputs \<union> g_name ` set gates \<Longrightarrow> \<exists>v. s2 x = Some v \<and> length v = 1"
    by (rule event_defined[OF l b s2(2,3)])
  have d1: "\<forall>x \<in> set (inputs @ outputs). \<exists>v. s2 x = Some v \<and> length v = 1"
  proof
    fix x assume "x \<in> set (inputs @ outputs)"
    with tr have "x \<in> set inputs \<union> g_name ` set gates" by auto
    then show "\<exists>v. s2 x = Some v \<and> length v = 1" by (rule def)
  qed
  have i1: "\<forall>n \<in> set inputs. n \<in> dom s2 \<and> n \<in> fst ` set waves"
  proof
    fix n assume n: "n \<in> set inputs"
    then have "n \<in> set (inputs @ outputs)" by simp
    with d1 keys show "n \<in> dom s2 \<and> n \<in> fst ` set waves" by blast
  qed
  from record_waves_ok[OF i1] obtain w1 where
    w1: "record_waves inputs s2 waves = Inr w1" "map fst w1 = map fst waves"
        "\<forall>x. map_of w1 x =
           map_option (\<lambda>t. t @ concat (map (\<lambda>n. the (s2 n)) (filter (\<lambda>n. n = x) inputs)))
             (map_of waves x)" by blast
  from w1(2) have k1: "fst ` set w1 = fst ` set waves" by (metis set_map)
  have o1: "\<forall>n \<in> set outputs. n \<in> dom s2 \<and> n \<in> fst ` set w1"
  proof
    fix n assume n: "n \<in> set outputs"
    then have "n \<in> set (inputs @ outputs)" by simp
    with d1 keys k1 show "n \<in> dom s2 \<and> n \<in> fst ` set w1" by blast
  qed
  from record_waves_ok[OF o1] obtain w2 where
    w2: "record_waves outputs s2 w1 = Inr w2" "map fst w2 = map fst w1"
        "\<forall>x. map_of w2 x =
           map_option (\<lambda>t. t @ concat (map (\<lambda>n. the (s2 n)) (filter (\<lambda>n. n = x) outputs)))
             (map_of w1 x)" by blast
  have m: "\<forall>x. map_of w2 x =
                map_option (\<lambda>t. t @ concat (map (\<lambda>n. the (s2 n)) (filter (\<lambda>n. n = x) (inputs @ outputs))))
                  (map_of waves x)"
  proof
    fix x
    show "map_of w2 x =
                map_option (\<lambda>t. t @ concat (map (\<lambda>n. the (s2 n)) (filter (\<lambda>n. n = x) (inputs @ outputs))))
                  (map_of waves x)"
      using w2(3)[rule_format, of x] w1(3)[rule_format, of x]
      by (cases "map_of waves x") simp_all
  qed
  from s2(1) w1(1) w2(1) w2(2) w1(2) m d1 show ?thesis by auto
qed

lemma sim_events_lengths:
  assumes gr: "gates_ready inputs gates" and vo: "valid_order gates order"
    and tr: "set outputs \<subseteq> set inputs \<union> g_name ` set gates"
    and di: "distinct (inputs @ outputs)"
  shows "\<forall>ev \<in> set stimuli. length (snd ev) = length inputs \<and> set (snd ev) \<subseteq> {''0'', ''1''} \<Longrightarrow>
         set (inputs @ outputs) \<subseteq> fst ` set waves \<Longrightarrow>
         \<forall>x \<in> set (inputs @ outputs). \<exists>t. map_of waves x = Some t \<and> length t = m \<Longrightarrow>
         \<exists>w. sim_events inputs outputs gates order stimuli s waves = Inr w
           \<and> map fst w = map fst waves
           \<and> (\<forall>x \<in> set (inputs @ outputs). \<exists>t. map_of w x = Some t \<and> length t = m + length stimuli)"
proof (induction stimuli arbitrary: s waves m)
  case Nil
  then show ?case by simp
next
  case (Cons ev stimuli)
  obtain t vals where ev: "ev = (t, vals)" by (cases ev)
  from Cons.prems(1) ev have l: "length vals = length inputs" and b: "set vals \<subseteq> {''0'', ''1''}"
    by auto
  from one_event[OF gr vo l b tr Cons.prems(2), of s] obtain s2 w1 w2 where
    e: "eval_gates gates order (bind_inputs inputs vals s) = Inr s2"
       "record_waves inputs s2 waves = Inr w1" "record_waves outputs s2 w1 = Inr w2"
       "map fst w2 = map fst waves"
       "\<forall>x. map_of w2 x =
                map_option (\<lambda>t. t @ concat (map (\<lambda>n. the (s2 n)) (filter (\<lambda>n. n = x) (inputs @ outputs))))
                  (map_of waves x)"
       "\<forall>x \<in> set (inputs @ outputs). \<exists>v. s2 x = Some v \<and> length v = 1"
    by blast
  have st: "sim_events inputs outputs gates order (ev # stimuli) s waves
          = sim_events inputs outputs gates order stimuli s2 w2"
    unfolding ev sim_events.simps Let_def bind_inputs_def[symmetric] e(1) using e(2,3) by simp
  have p1: "\<forall>ev \<in> set stimuli. length (snd ev) = length inputs \<and> set (snd ev) \<subseteq> {''0'', ''1''}"
    using Cons.prems(1) by simp
  from e(4) have "fst ` set w2 = fst ` set waves" by (metis set_map)
  with Cons.prems(2) have p2: "set (inputs @ outputs) \<subseteq> fst ` set w2" by simp
  have p3: "\<forall>x \<in> set (inputs @ outputs). \<exists>t. map_of w2 x = Some t \<and> length t = Suc m"
  proof
    fix x assume x: "x \<in> set (inputs @ outputs)"
    from Cons.prems(3) x obtain t0 where t0: "map_of waves x = Some t0" "length t0 = m" by blast
    from e(6) x obtain v where v: "s2 x = Some v" "length v = 1" by blast
    define tracked where "tracked = inputs @ outputs"
    have f: "filter (\<lambda>n. n = x) tracked = [x]"
      unfolding tracked_def by (rule filter_eq_distinct[OF di x])
    have "map_of w2 x = map_option (\<lambda>t. t @ concat (map (\<lambda>n. the (s2 n)) (filter (\<lambda>n. n = x) tracked)))
                  (map_of waves x)"
      unfolding tracked_def by (rule e(5)[rule_format])
    then have "map_of w2 x = Some (t0 @ v)" unfolding f t0(1) using v(1) by simp
    with t0(2) v(2) show "\<exists>t. map_of w2 x = Some t \<and> length t = Suc m" by simp
  qed
  from Cons.IH[OF p1 p2 p3, of s2] obtain w where
    w: "sim_events inputs outputs gates order stimuli s2 w2 = Inr w" "map fst w = map fst w2"
       "\<forall>x \<in> set (inputs @ outputs). \<exists>t. map_of w x = Some t \<and> length t = Suc m + length stimuli"
    by blast
  from st w e(4) show ?case by simp
qed

lemma waves_init:
  fixes names :: "string list"
  defines "w0 \<equiv> fold (\<lambda>s d. AList.update s [] d) names ([] :: string dict)"
  shows "fst ` set w0 = set names" and "\<forall>x \<in> set names. map_of w0 x = Some []"
proof -
  show "fst ` set w0 = set names" unfolding w0_def using waves_init_keys[of names "[]"] by simp
  show "\<forall>x \<in> set names. map_of w0 x = Some []"
  proof
    fix x assume "x \<in> set names"
    then have "x \<in> fst ` set ([] :: string dict) \<union> set names" by simp
    with waves_init_value[of "[]" x names] show "map_of w0 x = Some []" unfolding w0_def by simp
  qed
qed

lemma dict_get_map_of: "map_of w x = Some t \<Longrightarrow> dict_get w x = Inr t"
  by (simp add: dict_get_def)

lemma find_split:
  "find P xs = Some k \<Longrightarrow> \<exists>pre post. xs = pre @ k # post \<and> P k \<and> (\<forall>x \<in> set pre. \<not> P x)"
proof (induction xs)
  case Nil
  then show ?case by simp
next
  case (Cons x xs)
  show ?case
  proof (cases "P x")
    case True
    with Cons.prems have "x = k" by simp
    with True have "x # xs = [] @ k # xs \<and> P k \<and> (\<forall>y \<in> set []. \<not> P y)" by simp
    then show ?thesis by blast
  next
    case False
    with Cons.prems have "find P xs = Some k" by simp
    from Cons.IH[OF this] obtain pre post where
      "xs = pre @ k # post" "P k" "\<forall>y \<in> set pre. \<not> P y" by blast
    with False have "x # xs = (x # pre) @ k # post \<and> P k \<and> (\<forall>y \<in> set (x # pre). \<not> P y)" by simp
    then show ?thesis by blast
  qed
qed

lemma first_event_fails:
  assumes gr: "gates_ready inputs gates" and vo: "valid_order gates order"
    and l: "length vals = length inputs" and b: "set vals \<subseteq> {''0'', ''1''}"
    and out: "outputs = pre @ k # post" and pre: "set pre \<subseteq> set inputs \<union> g_name ` set gates"
    and k: "k \<notin> set inputs \<union> g_name ` set gates"
  shows "sim_events inputs outputs gates order ((t, vals) # rest) Map.empty
           (fold (\<lambda>s d. AList.update s [] d) (inputs @ outputs) []) = Inl (KeyError k)"
proof -
  let ?w0 = "fold (\<lambda>s d. AList.update s [] d) (inputs @ outputs) ([] :: string dict)"
  have k0: "fst ` set ?w0 = set (inputs @ outputs)" by (rule waves_init(1))
  from l have l': "length inputs \<le> length vals" by simp
  from event_signals[OF gr vo l', of Map.empty] obtain s2 where
    s2: "eval_gates gates order (bind_inputs inputs vals Map.empty) = Inr s2"
        "\<forall>x. x \<notin> g_name ` set gates \<longrightarrow> s2 x = bind_inputs inputs vals Map.empty x"
        "solves gates s2" by blast
  have def: "\<And>x. x \<in> set inputs \<union> g_name ` set gates \<Longrightarrow> \<exists>v. s2 x = Some v \<and> length v = 1"
    by (rule event_defined[OF l b s2(2,3)])
  have i1: "\<forall>n \<in> set inputs. n \<in> dom s2 \<and> n \<in> fst ` set ?w0"
  proof
    fix n assume n: "n \<in> set inputs"
    then have "n \<in> set inputs \<union> g_name ` set gates" by simp
    from def[OF this] n show "n \<in> dom s2 \<and> n \<in> fst ` set ?w0" unfolding k0 by auto
  qed
  from record_waves_ok[OF i1] obtain w1 where
    w1: "record_waves inputs s2 ?w0 = Inr w1" "map fst w1 = map fst ?w0" by blast
  from w1(2) have k1: "fst ` set w1 = set (inputs @ outputs)" using k0 by (metis set_map)
  have p1: "\<forall>n \<in> set pre. n \<in> dom s2 \<and> n \<in> fst ` set w1"
  proof
    fix n assume n: "n \<in> set pre"
    with pre have "n \<in> set inputs \<union> g_name ` set gates" by blast
    from def[OF this] n show "n \<in> dom s2 \<and> n \<in> fst ` set w1" unfolding k1 out by auto
  qed
  have kk: "k \<in> fst ` set w1" unfolding k1 out by simp
  from k have "s2 k = bind_inputs inputs vals Map.empty k" using s2(2) by simp
  also have "\<dots> = None" using k by (simp add: bind_inputs_other)
  finally have kn: "s2 k = None" .
  have f: "record_waves outputs s2 w1 = Inl (KeyError k)"
    unfolding out by (rule record_waves_fail[OF p1 kk kn])
  show ?thesis
    unfolding sim_events.simps Let_def bind_inputs_def[symmetric] s2(1) using w1(1) f by simp
qed

lemma simulate_undefined_output:
  assumes vn: "valid_netlist (inputs, outputs, gates, stimuli)"
    and k: "find (\<lambda>n. n \<notin> set inputs \<union> set (map g_name gates)) outputs = Some k"
  shows "stimuli \<noteq> [] \<longrightarrow> simulate (inputs, outputs, gates, stimuli) = Inl (KeyError k)"
    and "\<exists>w. simulate (inputs, outputs, gates, []) = Inr w \<and> dict_get w k = Inr []"
proof -
  let ?w0 = "fold (\<lambda>s d. AList.update s [] d) (inputs @ outputs) ([] :: string dict)"
  note gr = valid_netlist_gates[OF vn]
  from gr have dn: "distinct (map g_name gates)" and ac: "acyclic (gate_edges gates)"
    unfolding gates_ready_def by auto
  from topo_sort_valid[OF dn ac, of inputs] obtain order where
    o: "topo_sort gates inputs = Inr order" "valid_order gates order" by blast
  from find_split[OF k] obtain pre post where
    sp: "outputs = pre @ k # post" "k \<notin> set inputs \<union> set (map g_name gates)"
        "\<forall>x \<in> set pre. \<not> x \<notin> set inputs \<union> set (map g_name gates)" by blast
  from sp(3) have pre: "set pre \<subseteq> set inputs \<union> g_name ` set gates" by auto
  from sp(2) have kn: "k \<notin> set inputs \<union> g_name ` set gates" by simp
  show "stimuli \<noteq> [] \<longrightarrow> simulate (inputs, outputs, gates, stimuli) = Inl (KeyError k)"
  proof
    assume "stimuli \<noteq> []"
    then obtain t vals rest where st: "stimuli = (t, vals) # rest" by (cases stimuli) auto
    from valid_netlist_stimuli[OF vn] st have l: "length vals = length inputs"
      and b: "set vals \<subseteq> {''0'', ''1''}" by auto
    from first_event_fails[OF gr o(2) l b sp(1) pre kn, of t rest]
    show "simulate (inputs, outputs, gates, stimuli) = Inl (KeyError k)"
      by (simp add: simulate_def simulate_with_def o(1) st)
  qed
  have "simulate (inputs, outputs, gates, []) = Inr ?w0"
    by (simp add: simulate_def simulate_with_def o(1))
  moreover have "k \<in> set (inputs @ outputs)" unfolding sp(1) by simp
  then have "map_of ?w0 k = Some []" using waves_init(2)[of "inputs @ outputs"] by blast
  then have "dict_get ?w0 k = Inr []" by (rule dict_get_map_of)
  ultimately show "\<exists>w. simulate (inputs, outputs, gates, []) = Inr w \<and> dict_get w k = Inr []" by blast
qed

lemma undefined_output_parsed:
  "parse_netlist (document [''INPUTS: A B'', ''OUTPUTS: C Q'', ''GATES:'', ''C = AND(A, B)'',
                            ''STIMULUS:'', ''0 0 0''])
     = Inr ([''A'', ''B''], [''C'', ''Q''],
            [\<lparr>g_name = ''C'', g_type = ''AND'', g_inputs = [''A'', ''B'']\<rparr>],
            [(0, [''0'', ''0''])])"
  by code_simp

section \<open>Properties of the gate evaluator\<close>

text \<open>
  Claim C1. For every gate kind in AND, OR, XOR, NOT and every combination of boolean
  input values, given in declared order, the gate evaluator returns the truth-table
  result: NOT(a) is the negation of a, AND(a,b) the conjunction, OR(a,b) the
  disjunction, and XOR(a,b) is true exactly when a and b differ.
\<close>

theorem eval_gate_truth_tables:
  "eval_gate ''NOT'' [bit_str a] = Inr (bit_str (\<not> a))
   \<and> eval_gate ''AND'' [bit_str a, bit_str b] = Inr (bit_str (a \<and> b))
   \<and> eval_gate ''OR'' [bit_str a, bit_str b] = Inr (bit_str (a \<or> b))
   \<and> eval_gate ''XOR'' [bit_str a, bit_str b] = Inr (bit_str (a \<noteq> b))"
  by (cases a; cases b) (simp_all add: eval_gate_def getitem_def bit_str_def)

section \<open>Properties of the dependency resolver\<close>

text \<open>
  Claim C2. For every gate list with distinct gate names whose gate-to-gate dependency
  graph is acyclic, the dependency resolver returns an ordering that contains every gate
  exactly once (with its kind) and is a valid topological order: each gate stands after
  every gate whose output name is among its arguments.
\<close>

theorem topo_sort_acyclic:
  assumes dn: "distinct (map g_name gates)" and ac: "acyclic (gate_edges gates)"
  shows "\<exists>order. topo_sort gates inputs = Inr order
           \<and> distinct (map fst order)
           \<and> set order = (\<lambda>g. (g_name g, g_type g)) ` set gates
           \<and> (\<forall>g \<in> set gates. \<forall>d \<in> set (g_inputs g).
                 d \<in> set (map g_name gates) \<longrightarrow> comes_before (map fst order) d (g_name g))"
  using topo_sort_valid[OF dn ac] unfolding valid_order_def by blast

theorem topo_sort_acyclic_witness:
  "distinct (map g_name
       [\<lparr>g_name = ''T'', g_type = ''AND'', g_inputs = [''A'', ''B'']\<rparr>,
        \<lparr>g_name = ''Z'', g_type = ''NOT'', g_inputs = [''T'']\<rparr>])
   \<and> acyclic (gate_edges
       [\<lparr>g_name = ''T'', g_type = ''AND'', g_inputs = [''A'', ''B'']\<rparr>,
        \<lparr>g_name = ''Z'', g_type = ''NOT'', g_inputs = [''T'']\<rparr>])
   \<and> (\<exists>order. topo_sort
       [\<lparr>g_name = ''T'', g_type = ''AND'', g_inputs = [''A'', ''B'']\<rparr>,
        \<lparr>g_name = ''Z'', g_type = ''NOT'', g_inputs = [''T'']\<rparr>] [''A'', ''B''] = Inr order
        \<and> distinct (map fst order)
        \<and> set order = {(''T'', ''AND''), (''Z'', ''NOT'')}
        \<and> comes_before (map fst order) ''T'' ''Z'')"
proof -
  let ?gs = "[\<lparr>g_name = ''T'', g_type = ''AND'', g_inputs = [''A'', ''B'']\<rparr>,
        \<lparr>g_name = ''Z'', g_type = ''NOT'', g_inputs = [''T'']\<rparr>]"
  have h1: "distinct (map g_name ?gs)" by simp
  have "acyclic ({} :: (string \<times> string) set)" by (simp add: acyclic_def)
  then have h2: "acyclic (gate_edges ?gs)" by (simp add: gate_edges_def)
  from topo_sort_acyclic[OF h1 h2, of "[''A'', ''B'']"] obtain order where
    o: "topo_sort ?gs [''A'', ''B''] = Inr order" "distinct (map fst order)"
       "set order = (\<lambda>g. (g_name g, g_type g)) ` set ?gs"
       "\<forall>g \<in> set ?gs. \<forall>d \<in> set (g_inputs g).
           d \<in> set (map g_name ?gs) \<longrightarrow> comes_before (map fst order) d (g_name g)"
    by blast
  from o(3) have s: "set order = {(''T'', ''AND''), (''Z'', ''NOT'')}" by simp
  from o(4) have b: "comes_before (map fst order) ''T'' ''Z''" by simp
  from h1 h2 o(1,2) s b show ?thesis by blast
qed

text \<open>
  Claim C4. For every netlist whose gate-to-gate dependency graph contains a cycle, the
  run fails with the cyclic-dependency error during resolution, and the simulation
  returns that error instead of a trace. The witness is the example of the
  specification: \<^verbatim>\<open>A = AND(B, x)\<close> together with \<^verbatim>\<open>B = AND(A, y)\<close>.
\<close>

theorem cyclic_netlist_rejected:
  assumes "\<not> acyclic (gate_edges gates)"
  shows "topo_sort gates inputs = Inl cyclic_error
       \<and> simulate (inputs, outputs, gates, stimuli) = Inl cyclic_error"
  using topo_sort_cyclic[OF assms] by (simp add: simulate_def)

theorem cyclic_netlist_rejected_witness:
  "\<not> acyclic (gate_edges
       [\<lparr>g_name = ''A'', g_type = ''AND'', g_inputs = [''B'', ''x'']\<rparr>,
        \<lparr>g_name = ''B'', g_type = ''AND'', g_inputs = [''A'', ''y'']\<rparr>])
   \<and> simulate ([''x'', ''y''], [''A''],
       [\<lparr>g_name = ''A'', g_type = ''AND'', g_inputs = [''B'', ''x'']\<rparr>,
        \<lparr>g_name = ''B'', g_type = ''AND'', g_inputs = [''A'', ''y'']\<rparr>],
       [(0, [''0'', ''0''])])
     = Inl (ValueError ''Cyclic or unresolved gate dependencies detected'')"
proof -
  let ?gs = "[\<lparr>g_name = ''A'', g_type = ''AND'', g_inputs = [''B'', ''x'']\<rparr>,
        \<lparr>g_name = ''B'', g_type = ''AND'', g_inputs = [''A'', ''y'']\<rparr>]"
  have e: "(''A'', ''B'') \<in> gate_edges ?gs" "(''B'', ''A'') \<in> gate_edges ?gs"
    by (simp_all add: gate_edges_def)
  then have "(''A'', ''A'') \<in> (gate_edges ?gs)\<^sup>+" by (rule trancl_into_trancl2[OF _ r_into_trancl])
  then have h: "\<not> acyclic (gate_edges ?gs)" unfolding acyclic_def by blast
  from cyclic_netlist_rejected[OF h, of "[''x'', ''y'']" "[''A'']" "[(0, [''0'', ''0''])]"] h
  show ?thesis by (simp add: cyclic_error_def)
qed

section \<open>Scenarios\<close>

text \<open>
  Claim C3. Parsing and then simulating the document with inputs \<^verbatim>\<open>A B\<close>, outputs \<^verbatim>\<open>C\<close>, the
  single gate \<^verbatim>\<open>C = AND(A, B)\<close> and the stimulus lines \<^verbatim>\<open>0 0 0\<close>, \<^verbatim>\<open>1 1 0\<close>, \<^verbatim>\<open>2 1 1\<close>
  succeeds and produces exactly the traces A = 011, B = 001, C = 001.
\<close>

theorem and_scenario_traces:
  "run (document [''INPUTS: A B'', ''OUTPUTS: C'', ''GATES:'', ''C = AND(A, B)'',
                  ''STIMULUS:'', ''0 0 0'', ''1 1 0'', ''2 1 1''])
     = Inr [(''A'', ''011''), (''B'', ''001''), (''C'', ''001'')]"
  by code_simp

section \<open>Undefined signals\<close>

text \<open>
  Claim C5 says that a gate argument naming neither a primary input nor a gate output
  makes the run fail at resolution time. The evaluation below is the code on such a
  netlist, the gate \<^verbatim>\<open>C = AND(A, Q)\<close> with the only input \<^verbatim>\<open>A\<close>: the parser accepts it,
  \<^verbatim>\<open>topo_sort\<close> drops \<^verbatim>\<open>Q\<close> from the dependencies (line 113) and returns an order, and the
  failure is the KeyError of \<^verbatim>\<open>signals[a]\<close> (line 169) in the first event; without events
  the run succeeds.
\<close>

theorem undefined_argument_evaluation:
  "parse_netlist (document [''INPUTS: A'', ''OUTPUTS: C'', ''GATES:'', ''C = AND(A, Q)'',
                            ''STIMULUS:'', ''0 0''])
     = Inr ([''A''], [''C''], [\<lparr>g_name = ''C'', g_type = ''AND'', g_inputs = [''A'', ''Q'']\<rparr>],
            [(0, [''0''])])
   \<and> topo_sort [\<lparr>g_name = ''C'', g_type = ''AND'', g_inputs = [''A'', ''Q'']\<rparr>] [''A'']
     = Inr [(''C'', ''AND'')]
   \<and> simulate ([''A''], [''C''], [\<lparr>g_name = ''C'', g_type = ''AND'', g_inputs = [''A'', ''Q'']\<rparr>],
            [(0, [''0''])])
     = Inl (KeyError ''Q'')
   \<and> simulate ([''A''], [''C''], [\<lparr>g_name = ''C'', g_type = ''AND'', g_inputs = [''A'', ''Q'']\<rparr>], [])
     = Inr [(''A'', ''''), (''C'', '''')]"
  by code_simp

section \<open>Properties of the parser\<close>

text \<open>
  Claim C9. The parser rejects every stimulus sequence whose first event has a negative
  time: when the sections before the stimulus lines parse, and the first stimulus line
  has one token more than there are inputs and its first token is an integer below 0,
  the parse fails with the strictly-increasing-times error, because \<^verbatim>\<open>last_time\<close> starts
  at -1 (line 86).
\<close>

theorem negative_first_time_rejected:
  assumes "parse_sections (netlist_lines text) = Inr (inputs, outputs, gates, ln # rest)"
    and "length (split_ws ln) = length inputs + 1"
    and "py_int (split_ws ln ! 0) = Inr t"
    and "t < 0"
  shows "parse_netlist text = Inl (ValueError ''Stimulus times must be strictly increasing'')"
  using assms by (simp add: parse_netlist_def stimulus_line_def Let_def)

theorem negative_first_time_rejected_witness:
  "parse_sections (netlist_lines (document [''INPUTS: A B'', ''OUTPUTS: C'', ''GATES:'',
       ''C = AND(A, B)'', ''STIMULUS:'', ''-1 0 0'', ''0 1 1'']))
     = Inr ([''A'', ''B''], [''C''],
            [\<lparr>g_name = ''C'', g_type = ''AND'', g_inputs = [''A'', ''B'']\<rparr>],
            [''-1 0 0'', ''0 1 1''])
   \<and> py_int (split_ws ''-1 0 0'' ! 0) = Inr (- 1)
   \<and> parse_netlist (document [''INPUTS: A B'', ''OUTPUTS: C'', ''GATES:'',
       ''C = AND(A, B)'', ''STIMULUS:'', ''-1 0 0'', ''0 1 1''])
     = Inl (ValueError ''Stimulus times must be strictly increasing'')"
proof -
  let ?doc = "document [''INPUTS: A B'', ''OUTPUTS: C'', ''GATES:'',
       ''C = AND(A, B)'', ''STIMULUS:'', ''-1 0 0'', ''0 1 1'']"
  have h1: "parse_sections (netlist_lines ?doc)
     = Inr ([''A'', ''B''], [''C''],
            [\<lparr>g_name = ''C'', g_type = ''AND'', g_inputs = [''A'', ''B'']\<rparr>],
            ''-1 0 0'' # [''0 1 1''])" by code_simp
  have h2: "length (split_ws ''-1 0 0'') = length [''A'', ''B''] + 1" by code_simp
  have h3: "py_int (split_ws ''-1 0 0'' ! 0) = Inr (- 1)" by code_simp
  have h4: "(- 1 :: int) < 0" by simp
  from negative_first_time_rejected[OF h1 h2 h3 h4] h1 h3 show ?thesis by simp
qed

section \<open>Properties of the simulation\<close>

text \<open>
  Claim C8. For every valid acyclic netlist, the traces the simulation produces do not
  depend on which valid topological order is used: evaluating the gates in any order in
  which each gate follows all gates it depends on gives the same traces for every tracked
  signal, and they are the traces of \<^const>\<open>simulate\<close>, which takes the order of
  \<^const>\<open>topo_sort\<close>. The witness has the two orders T, U, Z and U, T, Z.
\<close>

theorem traces_order_independent:
  assumes "valid_netlist (inputs, outputs, gates, stimuli)"
    and "valid_order gates order1" and "valid_order gates order2"
  shows "simulate_with order1 (inputs, outputs, gates, stimuli)
           = simulate_with order2 (inputs, outputs, gates, stimuli)
       \<and> simulate (inputs, outputs, gates, stimuli)
           = simulate_with order1 (inputs, outputs, gates, stimuli)"
  using simulate_valid_order[OF assms(1,2)] simulate_valid_order[OF assms(1,3)] by simp

theorem traces_order_independent_witness:
  "valid_netlist ([''A'', ''B''], [''Z''],
      [\<lparr>g_name = ''T'', g_type = ''AND'', g_inputs = [''A'', ''B'']\<rparr>,
       \<lparr>g_name = ''U'', g_type = ''OR'', g_inputs = [''A'', ''B'']\<rparr>,
       \<lparr>g_name = ''Z'', g_type = ''XOR'', g_inputs = [''T'', ''U'']\<rparr>],
      [(0, [''0'', ''1'']), (1, [''1'', ''1''])])
   \<and> simulate_with [(''T'', ''AND''), (''U'', ''OR''), (''Z'', ''XOR'')]
       ([''A'', ''B''], [''Z''],
      [\<lparr>g_name = ''T'', g_type = ''AND'', g_inputs = [''A'', ''B'']\<rparr>,
       \<lparr>g_name = ''U'', g_type = ''OR'', g_inputs = [''A'', ''B'']\<rparr>,
       \<lparr>g_name = ''Z'', g_type = ''XOR'', g_inputs = [''T'', ''U'']\<rparr>],
      [(0, [''0'', ''1'']), (1, [''1'', ''1''])])
     = simulate_with [(''U'', ''OR''), (''T'', ''AND''), (''Z'', ''XOR'')]
       ([''A'', ''B''], [''Z''],
      [\<lparr>g_name = ''T'', g_type = ''AND'', g_inputs = [''A'', ''B'']\<rparr>,
       \<lparr>g_name = ''U'', g_type = ''OR'', g_inputs = [''A'', ''B'']\<rparr>,
       \<lparr>g_name = ''Z'', g_type = ''XOR'', g_inputs = [''T'', ''U'']\<rparr>],
      [(0, [''0'', ''1'']), (1, [''1'', ''1''])])
   \<and> simulate ([''A'', ''B''], [''Z''],
      [\<lparr>g_name = ''T'', g_type = ''AND'', g_inputs = [''A'', ''B'']\<rparr>,
       \<lparr>g_name = ''U'', g_type = ''OR'', g_inputs = [''A'', ''B'']\<rparr>,
       \<lparr>g_name = ''Z'', g_type = ''XOR'', g_inputs = [''T'', ''U'']\<rparr>],
      [(0, [''0'', ''1'']), (1, [''1'', ''1''])])
     = Inr [(''A'', ''01''), (''B'', ''11''), (''Z'', ''10'')]"
proof -
  let ?gs = "[\<lparr>g_name = ''T'', g_type = ''AND'', g_inputs = [''A'', ''B'']\<rparr>,
       \<lparr>g_name = ''U'', g_type = ''OR'', g_inputs = [''A'', ''B'']\<rparr>,
       \<lparr>g_name = ''Z'', g_type = ''XOR'', g_inputs = [''T'', ''U'']\<rparr>]"
  let ?nl = "([''A'', ''B''], [''Z''], ?gs, [(0 :: int, [''0'', ''1'']), (1, [''1'', ''1''])])"
  have e: "gate_edges ?gs = {(''T'', ''Z''), (''U'', ''Z'')}" by (simp add: gate_edges_def)
  have ac: "acyclic (gate_edges ?gs)"
    unfolding e by (simp add: acyclic_empty_edges rtrancl_insert)
  have vn: "valid_netlist ?nl"
    unfolding valid_netlist_def using ac by (simp add: gate_ok_def)
  have v1: "valid_order ?gs [(''T'', ''AND''), (''U'', ''OR''), (''Z'', ''XOR'')]"
    unfolding valid_order_def by (simp add: comes_before_Cons comes_before_Nil)
  have v2: "valid_order ?gs [(''U'', ''OR''), (''T'', ''AND''), (''Z'', ''XOR'')]"
    unfolding valid_order_def by (simp add: comes_before_Cons comes_before_Nil insert_commute)
  have r: "simulate_with [(''T'', ''AND''), (''U'', ''OR''), (''Z'', ''XOR'')] ?nl
     = Inr [(''A'', ''01''), (''B'', ''11''), (''Z'', ''10'')]" by code_simp
  from traces_order_independent[OF vn v1 v2] vn r show ?thesis by simp
qed

text \<open>
  Claim C6, as stated, says that for every valid netlist with N stimulus events every
  tracked signal has a trace of length N. The code appends to \<^verbatim>\<open>waves[name]\<close> once for
  every occurrence of the name in the inputs and in the outputs (lines 173-176), so a
  name listed twice, as in \<^verbatim>\<open>OUTPUTS: C C\<close>, gets two values per event: the counterexample
  has one event and the trace \<^verbatim>\<open>00\<close> for C.

  As amended: for every valid netlist with N stimulus events in which the tracked names
  (the inputs followed by the outputs) are pairwise distinct and every output names a
  primary input or a gate output, the simulation succeeds and gives every tracked signal
  a trace of length exactly N; for N = 0 the simulation of any valid netlist succeeds and
  every tracked signal's trace is empty.
\<close>

theorem trace_lengths:
  assumes vn: "valid_netlist (inputs, outputs, gates, stimuli)"
    and h: "stimuli = [] \<or> (distinct (inputs @ outputs)
              \<and> set outputs \<subseteq> set inputs \<union> set (map g_name gates))"
  shows "\<exists>w. simulate (inputs, outputs, gates, stimuli) = Inr w
           \<and> set (map fst w) = set (inputs @ outputs)
           \<and> (\<forall>x \<in> set (inputs @ outputs). \<exists>t. dict_get w x = Inr t \<and> length t = length stimuli)"
proof -
  let ?w0 = "fold (\<lambda>s d. AList.update s [] d) (inputs @ outputs) ([] :: string dict)"
  note gr = valid_netlist_gates[OF vn]
  from gr have dn: "distinct (map g_name gates)" and ac: "acyclic (gate_edges gates)"
    unfolding gates_ready_def by auto
  from topo_sort_valid[OF dn ac, of inputs] obtain order where
    o: "topo_sort gates inputs = Inr order" "valid_order gates order" by blast
  have sim: "simulate (inputs, outputs, gates, stimuli)
      = sim_events inputs outputs gates order stimuli Map.empty ?w0"
    by (simp add: simulate_def simulate_with_def o(1))
  have k0: "fst ` set ?w0 = set (inputs @ outputs)" by (rule waves_init(1))
  have v0: "\<forall>x \<in> set (inputs @ outputs). \<exists>t. map_of ?w0 x = Some t \<and> length t = 0"
    using waves_init(2)[of "inputs @ outputs"] by simp
  show ?thesis
  proof (cases "stimuli = []")
    case True
    have "sim_events inputs outputs gates order stimuli Map.empty ?w0 = Inr ?w0"
      unfolding True by simp
    moreover have "set (map fst ?w0) = set (inputs @ outputs)" using k0 by simp
    moreover have "\<forall>x \<in> set (inputs @ outputs). \<exists>t. dict_get ?w0 x = Inr t \<and> length t = length stimuli"
    proof
      fix x assume "x \<in> set (inputs @ outputs)"
      with v0 obtain t where t: "map_of ?w0 x = Some t" "length t = 0" by blast
      from t(2) True have "length t = length stimuli" by simp
      with dict_get_map_of[OF t(1)]
      show "\<exists>t. dict_get ?w0 x = Inr t \<and> length t = length stimuli" by blast
    qed
    ultimately show ?thesis unfolding sim by blast
  next
    case False
    with h have di: "distinct (inputs @ outputs)"
      and tr: "set outputs \<subseteq> set inputs \<union> g_name ` set gates" by auto
    have k: "set (inputs @ outputs) \<subseteq> fst ` set ?w0" using k0 by simp
    from sim_events_lengths[OF gr o(2) tr di valid_netlist_stimuli[OF vn] k v0, of Map.empty]
    obtain w where w: "sim_events inputs outputs gates order stimuli Map.empty ?w0 = Inr w"
      "map fst w = map fst ?w0"
      "\<forall>x \<in> set (inputs @ outputs). \<exists>t. map_of w x = Some t \<and> length t = 0 + length stimuli"
      by blast
    from w(2) k0 have "set (map fst w) = set (inputs @ outputs)" by simp
    moreover have "\<forall>x \<in> set (inputs @ outputs). \<exists>t. dict_get w x = Inr t \<and> length t = length stimuli"
    proof
      fix x assume "x \<in> set (inputs @ outputs)"
      with w(3) obtain t where t: "map_of w x = Some t" "length t = length stimuli" by auto
      from dict_get_map_of[OF t(1)] t(2)
      show "\<exists>t. dict_get w x = Inr t \<and> length t = length stimuli" by blast
    qed
    ultimately show ?thesis unfolding sim using w(1) by blast
  qed
qed

theorem trace_lengths_witness:
  "valid_netlist ([''A'', ''B''], [''C''],
      [\<lparr>g_name = ''C'', g_type = ''AND'', g_inputs = [''A'', ''B'']\<rparr>],
      [(0, [''0'', ''0'']), (1, [''1'', ''0'']), (2, [''1'', ''1''])])
   \<and> distinct ([''A'', ''B''] @ [''C''])
   \<and> (\<exists>w. simulate ([''A'', ''B''], [''C''],
      [\<lparr>g_name = ''C'', g_type = ''AND'', g_inputs = [''A'', ''B'']\<rparr>],
      [(0, [''0'', ''0'']), (1, [''1'', ''0'']), (2, [''1'', ''1''])]) = Inr w
       \<and> (\<exists>t. dict_get w ''C'' = Inr t \<and> length t = 3))"
proof -
  let ?gs = "[\<lparr>g_name = ''C'', g_type = ''AND'', g_inputs = [''A'', ''B'']\<rparr>]"
  let ?st = "[(0 :: int, [''0'', ''0'']), (1, [''1'', ''0'']), (2, [''1'', ''1''])]"
  have e: "gate_edges ?gs = {}" by (simp add: gate_edges_def)
  have vn: "valid_netlist ([''A'', ''B''], [''C''], ?gs, ?st)"
    unfolding valid_netlist_def by (simp add: gate_ok_def e acyclic_empty_edges)
  have d: "distinct ([''A'', ''B''] @ [''C''])" by simp
  have h: "?st = [] \<or> (distinct ([''A'', ''B''] @ [''C''])
             \<and> set [''C''] \<subseteq> set [''A'', ''B''] \<union> set (map g_name ?gs))" by simp
  from trace_lengths[OF vn h] obtain w where
    w: "simulate ([''A'', ''B''], [''C''], ?gs, ?st) = Inr w"
       "\<forall>x \<in> set ([''A'', ''B''] @ [''C'']). \<exists>t. dict_get w x = Inr t \<and> length t = length ?st"
    by blast
  from w(2) have "\<exists>t. dict_get w ''C'' = Inr t \<and> length t = 3" by (simp add: eval_nat_numeral)
  with vn d w(1) show ?thesis by blast
qed

theorem duplicate_output_counterexample:
  "parse_netlist (document [''INPUTS: A B'', ''OUTPUTS: C C'', ''GATES:'', ''C = AND(A, B)'',
                            ''STIMULUS:'', ''0 0 0''])
     = Inr ([''A'', ''B''], [''C'', ''C''],
            [\<lparr>g_name = ''C'', g_type = ''AND'', g_inputs = [''A'', ''B'']\<rparr>],
            [(0, [''0'', ''0''])])
   \<and> valid_netlist ([''A'', ''B''], [''C'', ''C''],
            [\<lparr>g_name = ''C'', g_type = ''AND'', g_inputs = [''A'', ''B'']\<rparr>],
            [(0, [''0'', ''0''])])
   \<and> simulate ([''A'', ''B''], [''C'', ''C''],
            [\<lparr>g_name = ''C'', g_type = ''AND'', g_inputs = [''A'', ''B'']\<rparr>],
            [(0, [''0'', ''0''])])
     = Inr [(''A'', ''0''), (''B'', ''0''), (''C'', ''00'')]"
proof -
  let ?gs = "[\<lparr>g_name = ''C'', g_type = ''AND'', g_inputs = [''A'', ''B'']\<rparr>]"
  have e: "gate_edges ?gs = {}" by (simp add: gate_edges_def)
  have vn: "valid_netlist ([''A'', ''B''], [''C'', ''C''], ?gs, [(0, [''0'', ''0''])])"
    unfolding valid_netlist_def by (simp add: gate_ok_def e acyclic_empty_edges)
  have p: "parse_netlist (document [''INPUTS: A B'', ''OUTPUTS: C C'', ''GATES:'', ''C = AND(A, B)'',
                            ''STIMULUS:'', ''0 0 0''])
     = Inr ([''A'', ''B''], [''C'', ''C''], ?gs, [(0, [''0'', ''0''])])" by code_simp
  have s: "simulate ([''A'', ''B''], [''C'', ''C''], ?gs, [(0, [''0'', ''0''])])
     = Inr [(''A'', ''0''), (''B'', ''0''), (''C'', ''00'')]" by code_simp
  from p vn s show ?thesis by blast
qed

text \<open>
  Claim C10. The parser accepts a document whose OUTPUTS list holds a name that is
  neither a primary input nor a gate output (the document below lists \<^verbatim>\<open>Q\<close>). For a
  netlist that is valid but for such outputs, where \<open>k\<close> is the first such name of the
  output list, the simulation with at least one stimulus event fails with the KeyError of
  \<open>k\<close>, raised while the output traces of the first event are recorded (line 176); with no
  stimulus event it succeeds and the trace of \<open>k\<close> is empty.
\<close>

theorem undefined_output:
  assumes "valid_netlist (inputs, outputs, gates, stimuli)"
    and "find (\<lambda>n. n \<notin> set inputs \<union> set (map g_name gates)) outputs = Some k"
  shows "parse_netlist (document [''INPUTS: A B'', ''OUTPUTS: C Q'', ''GATES:'', ''C = AND(A, B)'',
                            ''STIMULUS:'', ''0 0 0''])
           = Inr ([''A'', ''B''], [''C'', ''Q''],
                  [\<lparr>g_name = ''C'', g_type = ''AND'', g_inputs = [''A'', ''B'']\<rparr>],
                  [(0, [''0'', ''0''])])
       \<and> (stimuli \<noteq> [] \<longrightarrow> simulate (inputs, outputs, gates, stimuli) = Inl (KeyError k))
       \<and> (\<exists>w. simulate (inputs, outputs, gates, []) = Inr w \<and> dict_get w k = Inr [])"
  using undefined_output_parsed simulate_undefined_output[OF assms] by blast

theorem undefined_output_witness:
  "valid_netlist ([''A'', ''B''], [''C'', ''Q''],
            [\<lparr>g_name = ''C'', g_type = ''AND'', g_inputs = [''A'', ''B'']\<rparr>],
            [(0, [''0'', ''0''])])
   \<and> find (\<lambda>n. n \<notin> set [''A'', ''B'']
               \<union> set (map g_name [\<lparr>g_name = ''C'', g_type = ''AND'', g_inputs = [''A'', ''B'']\<rparr>]))
        [''C'', ''Q''] = Some ''Q''
   \<and> simulate ([''A'', ''B''], [''C'', ''Q''],
            [\<lparr>g_name = ''C'', g_type = ''AND'', g_inputs = [''A'', ''B'']\<rparr>],
            [(0, [''0'', ''0''])]) = Inl (KeyError ''Q'')
   \<and> (\<exists>w. simulate ([''A'', ''B''], [''C'', ''Q''],
            [\<lparr>g_name = ''C'', g_type = ''AND'', g_inputs = [''A'', ''B'']\<rparr>], []) = Inr w
         \<and> dict_get w ''Q'' = Inr [])"
proof -
  let ?gs = "[\<lparr>g_name = ''C'', g_type = ''AND'', g_inputs = [''A'', ''B'']\<rparr>]"
  have e: "gate_edges ?gs = {}" by (simp add: gate_edges_def)
  have vn: "valid_netlist ([''A'', ''B''], [''C'', ''Q''], ?gs, [(0, [''0'', ''0''])])"
    unfolding valid_netlist_def by (simp add: gate_ok_def e acyclic_empty_edges)
  have f: "find (\<lambda>n. n \<notin> set [''A'', ''B''] \<union> set (map g_name ?gs)) [''C'', ''Q''] = Some ''Q''"
    by simp
  from undefined_output[OF vn f] vn f show ?thesis by simp
qed

end
